theory Spec2Isabelle
  imports Complex_Main "HOL-Library.Log_Nat"
begin

section \<open>The game-state collaborator\<close>

text \<open>
  The search core of \<^verbatim>\<open>mcts.cpp\<close> consumes a board type through four operations and
  two distinguished outcome codes. They are parameters of every function below.
\<close>

record ('b, 'm) rules =
  get_valid_moves :: "'b \<Rightarrow> 'm list"
  move :: "'b \<Rightarrow> 'm \<Rightarrow> 'b"
  game_winner :: "'b \<Rightarrow> int"
  player :: "'b \<Rightarrow> int"
  PLAYER_NONE :: int
  PLAYER_TIE :: int

section \<open>Nodes, the tree and the store of nodes\<close>

text \<open>
  Nodes live in a store indexed by address; \<^verbatim>\<open>make_shared\<close> appends a slot and a
  destroyed node leaves \<open>None\<close> behind, so an address is never reused and a
  \<^verbatim>\<open>weak_ptr\<close> is expired exactly when its slot is \<open>None\<close>. A \<^verbatim>\<open>weak_ptr\<close> built
  from \<^verbatim>\<open>nullptr\<close> is the value \<open>None\<close>. Locks are not modelled; every function is the
  single-threaded behaviour of the method of the same name.

  Modelled from the spec: the header \<^verbatim>\<open>mcts.h\<close>, which declares the fields of the two
  classes, their types and their initial values, is not among the sources. The counters
  (visits, wins, ties, lookups, hits, destructions) are the spec's monotonic counts, that
  is natural numbers without wrap-around; a new node has zero counts and is not expanded,
  and a new tree is empty with zero counts. The locals that the source itself declares
  \<^verbatim>\<open>unsigned\<close> are 32 bits wide: what is stored in them is taken modulo \<open>2 ^ 32\<close>.
\<close>

type_synonym addr = nat

datatype fault = Erase_end | Front_of_empty_queue | Null_dereference

record ('b, 'm) MCTSNode =
  board :: 'b
  moves :: "'m list"
  parents :: "addr option list"
  children :: "addr list"
  visits :: nat
  wins :: nat
  ties :: nat
  expanded :: bool

record ('b, 'm) MCTSTree =
  nodes :: "('b, 'm) MCTSNode option list"
  transposition_table :: "('b \<times> addr) list"
  roots :: "addr list"
  total_lookups :: nat
  total_hits :: nat
  total_fillicides :: nat
  held :: "addr list"

definition empty_tree :: "('b, 'm) MCTSTree" where
  "empty_tree = \<lparr>nodes = [], transposition_table = [], roots = [], total_lookups = 0,
     total_hits = 0, total_fillicides = 0, held = []\<rparr>"

definition node_at :: "('b, 'm) MCTSTree \<Rightarrow> addr \<Rightarrow> ('b, 'm) MCTSNode option" where
  "node_at t a = (if a < length (nodes t) then nodes t ! a else None)"

definition upd :: "addr \<Rightarrow> (('b, 'm) MCTSNode \<Rightarrow> ('b, 'm) MCTSNode) \<Rightarrow>
    ('b, 'm) MCTSTree \<Rightarrow> ('b, 'm) MCTSTree" where
  "upd a f t = (case node_at t a of None \<Rightarrow> t
     | Some n \<Rightarrow> t\<lparr>nodes := (nodes t)[a := Some (f n)]\<rparr>)"

definition expired :: "('b, 'm) MCTSTree \<Rightarrow> addr option \<Rightarrow> bool" where
  "expired t w = (case w of None \<Rightarrow> True | Some a \<Rightarrow> node_at t a = None)"

definition erase :: "'b \<Rightarrow> ('b \<times> addr) list \<Rightarrow> ('b \<times> addr) list" where
  "erase b tab = filter (\<lambda>e. fst e \<noteq> b) tab"

subsection \<open>Shared ownership\<close>

text \<open>
  The strong count of a node is the number of \<^verbatim>\<open>shared_ptr\<close>s to it: its occurrences in
  the root vector, in the child vectors of the live nodes, and among the pointers that
  callers hold (\<open>held\<close>).
\<close>

definition slot_refs :: "addr \<Rightarrow> ('b, 'm) MCTSNode option \<Rightarrow> nat" where
  "slot_refs a s = (case s of None \<Rightarrow> 0 | Some n \<Rightarrow> count_list (children n) a)"

definition use_count :: "('b, 'm) MCTSTree \<Rightarrow> addr \<Rightarrow> nat" where
  "use_count t a = count_list (roots t) a + count_list (held t) a
     + sum_list (map (slot_refs a) (nodes t))"

text \<open>
  \<^verbatim>\<open>MCTSNode::~MCTSNode\<close>: count the destruction, erase the table entry of the node's
  board; the node's members, and with them its child pointers, go afterwards. A live
  node has its entry in every state the operations produce from the empty tree; erasing
  a missing entry, which is undefined in the program, leaves the table as it is here.
\<close>

definition destroy :: "addr \<Rightarrow> ('b, 'm) MCTSNode \<Rightarrow> ('b, 'm) MCTSTree \<Rightarrow> ('b, 'm) MCTSTree" where
  "destroy a n t = t\<lparr>total_fillicides := total_fillicides t + 1,
     transposition_table := erase (board n) (transposition_table t),
     nodes := (nodes t)[a := None]\<rparr>"

definition live_count :: "('b, 'm) MCTSTree \<Rightarrow> nat" where
  "live_count t = length (filter (\<lambda>s. s \<noteq> None) (nodes t))"

text \<open>
  Dropping a list of strong references that have already been taken out of the
  structure: a node whose count has reached zero is destroyed, and the pointers in its
  child vector are dropped in turn, depth first.
\<close>

function release :: "addr list \<Rightarrow> ('b, 'm) MCTSTree \<Rightarrow> ('b, 'm) MCTSTree" where
  "release [] t = t"
| "release (a # as) t =
     (case node_at t a of
        None \<Rightarrow> release as t
      | Some n \<Rightarrow>
          if 0 < use_count t a then release as t
          else release (children n @ as) (destroy a n t))"
  by pat_completeness auto

lemma live_count_destroy_aux:
  "a < length xs \<Longrightarrow> xs ! a = Some n \<Longrightarrow>
   length (filter (\<lambda>s. s \<noteq> None) (xs[a := None])) < length (filter (\<lambda>s. s \<noteq> None) xs)"
proof (induction xs arbitrary: a)
  case Nil
  then show ?case by simp
next
  case (Cons x xs)
  show ?case
  proof (cases a)
    case 0
    with Cons.prems show ?thesis by simp
  next
    case (Suc k)
    with Cons.prems have "k < length xs" "xs ! k = Some n" by simp_all
    from Cons.IH [OF this] Suc show ?thesis by simp
  qed
qed

lemma live_count_destroy:
  "node_at t a = Some n \<Longrightarrow> live_count (destroy a n t) < live_count t"
proof -
  assume "node_at t a = Some n"
  then have "a < length (nodes t)" "nodes t ! a = Some n"
    by (auto simp: node_at_def split: if_splits)
  from live_count_destroy_aux [OF this] show ?thesis
    by (simp add: live_count_def destroy_def)
qed

termination release
  by (relation "inv_image (less_than <*lex*> less_than) (\<lambda>(as, t). (live_count t, length as))")
     (auto simp: live_count_destroy)

subsection \<open>\<^verbatim>\<open>MCTSNode::filicide\<close>\<close>

definition filicide :: "addr \<Rightarrow> ('b, 'm) MCTSTree \<Rightarrow> ('b, 'm) MCTSTree" where
  "filicide a t =
     (case node_at t a of
        None \<Rightarrow> t
      | Some n \<Rightarrow>
          if \<not> expanded n then t
          else release (children n) (upd a (\<lambda>n. n\<lparr>children := [], expanded := False\<rparr>) t))"

subsection \<open>\<^verbatim>\<open>MCTSNode::MCTSNode\<close> and \<^verbatim>\<open>MCTSTree::get_node\<close>\<close>

text \<open>
  The constructor pushes \<^verbatim>\<open>new_parent\<close> onto the parent vector whatever it is, so a
  node made without a parent starts with one empty \<^verbatim>\<open>weak_ptr\<close> there.
\<close>

definition new_MCTSNode :: "('b, 'm) rules \<Rightarrow> 'b \<Rightarrow> addr option \<Rightarrow> ('b, 'm) MCTSNode" where
  "new_MCTSNode R new_board new_parent =
     \<lparr>board = new_board, moves = get_valid_moves R new_board, parents = [new_parent],
      children = [], visits = 0, wins = 0, ties = 0, expanded = False\<rparr>"

definition stale :: "('b, 'm) MCTSTree \<Rightarrow> 'b \<Rightarrow> bool" where
  "stale t b = (case map_of (transposition_table t) b of
      None \<Rightarrow> False | Some a \<Rightarrow> node_at t a = None)"

text \<open>
  \<^verbatim>\<open>roots.erase(find(roots.begin(), roots.end(), node))\<close> is undefined when the node is
  not in the root vector: \<^verbatim>\<open>find\<close> returns \<^verbatim>\<open>end()\<close>.
\<close>

function get_node :: "('b, 'm) rules \<Rightarrow> 'b \<Rightarrow> addr option \<Rightarrow> ('b, 'm) MCTSTree \<Rightarrow>
    fault + (addr \<times> ('b, 'm) MCTSTree)" where
  "get_node R new_board new_parent t =
     (let t1 = t\<lparr>total_lookups := total_lookups t + 1\<rparr> in
      case map_of (transposition_table t1) new_board of
        Some a \<Rightarrow>
          (case node_at t1 a of
             None \<Rightarrow> get_node R new_board new_parent
                (t1\<lparr>transposition_table := erase new_board (transposition_table t1)\<rparr>)
           | Some node \<Rightarrow>
               if parents node = [] \<and> new_parent \<noteq> None \<and> a \<notin> set (roots t1)
               then Inl Erase_end
               else
                 let t2 = (if parents node = [] \<and> new_parent \<noteq> None
                           then t1\<lparr>roots := remove1 a (roots t1)\<rparr> else t1);
                     t3 = (if new_parent \<noteq> None
                           then upd a (\<lambda>n. n\<lparr>parents := parents n @ [new_parent]\<rparr>) t2
                           else t2)
                 in Inr (a, t3\<lparr>total_hits := total_hits t3 + 1\<rparr>))
      | None \<Rightarrow>
          let a = length (nodes t1);
              t2 = t1\<lparr>nodes := nodes t1 @ [Some (new_MCTSNode R new_board new_parent)],
                      transposition_table := transposition_table t1 @ [(new_board, a)]\<rparr>;
              t3 = (if new_parent = None then t2\<lparr>roots := roots t2 @ [a]\<rparr> else t2)
          in Inr (a, t3))"
  by pat_completeness auto

lemma map_of_erase: "map_of (erase b tab) b = None"
  by (induction tab) (auto simp: erase_def)

termination get_node
  by (relation "measure (\<lambda>(R, b, p, t). if stale t b then 1 else 0)")
     (auto simp: stale_def map_of_erase node_at_def split: option.splits)

declare get_node.simps [simp del]

section \<open>Floating-point arithmetic\<close>

text \<open>
  \<^verbatim>\<open>float\<close> and \<^verbatim>\<open>double\<close> results are real numbers rounded to the nearest value with a
  24-bit, respectively 53-bit, significand, ties to even (the default rounding of
  IEEE 754). Overflow and subnormal numbers are out of reach of the quantities computed
  here and are not modelled. A result that is not a number is \<open>None\<close>.
\<close>

definition round_even :: "real \<Rightarrow> int" where
  "round_even y =
     (let f = \<lfloor>y\<rfloor>; d = y - of_int f
      in if d < 1 / 2 then f else if 1 / 2 < d then f + 1
         else if even f then f else f + 1)"

definition pow2 :: "int \<Rightarrow> real" where
  "pow2 e = (if 0 \<le> e then 2 ^ nat e else 1 / 2 ^ nat (- e))"

text \<open>
  The binary exponent of a positive number: the \<open>e\<close> with \<open>2 ^ e \<le> x < 2 ^ (e + 1)\<close>, read off
  the number of bits of the integer part of \<open>x\<close> or, below one, of \<open>1 / x\<close>.
\<close>

definition exponent :: "real \<Rightarrow> int" where
  "exponent x =
     (if 1 \<le> x then int (floorlog 2 (nat \<lfloor>x\<rfloor>)) - 1
      else - int (floorlog 2 (nat (\<lceil>1 / x\<rceil> - 1))))"

definition fl :: "nat \<Rightarrow> real \<Rightarrow> real" where
  "fl p x =
     (if x = 0 then 0
      else let e = exponent \<bar>x\<bar> - int p + 1
           in of_int (round_even (x / pow2 e)) * pow2 e)"

definition single :: "real \<Rightarrow> real" where
  "single = fl 24"

definition double :: "real \<Rightarrow> real" where
  "double = fl 53"

definition C :: real where
  "C = single (double (144 / 100))"

definition TIE_REWARD :: real where
  "TIE_REWARD = single (double (5 / 10))"

section \<open>Node statistics\<close>

text \<open>\<^verbatim>\<open>MCTSNode::Q\<close>: the denominator is \<^verbatim>\<open>1.0f + visits\<close>, a \<^verbatim>\<open>float\<close> sum.\<close>

definition Q_denominator :: "('b, 'm) MCTSNode \<Rightarrow> real" where
  "Q_denominator n = single (1 + single (of_nat (visits n)))"

definition Q :: "('b, 'm) MCTSNode \<Rightarrow> real" where
  "Q n =
     (let total = single (single (of_nat (wins n)) + single (TIE_REWARD * single (of_nat (ties n))))
      in single (total / Q_denominator n))"

text \<open>
  \<^verbatim>\<open>MCTSNode::U\<close> walks the parent vector, erases the expired entries in place and adds
  up the visits of the live parents in the \<^verbatim>\<open>unsigned parent_visit_count\<close>, which wraps at
  \<open>2 ^ 32\<close>; \<open>U_scan\<close> is that loop. The quotient is taken in
  \<^verbatim>\<open>double\<close> (the denominator is \<^verbatim>\<open>1.0 + visits\<close>) and returned as a \<^verbatim>\<open>float\<close>; the
  square root is the \<^verbatim>\<open>float\<close> overload.
\<close>

fun U_scan :: "('b, 'm) MCTSTree \<Rightarrow> addr option list \<Rightarrow> addr option list \<times> nat" where
  "U_scan t [] = ([], 0)"
| "U_scan t (w # ws) =
     (case w of
        None \<Rightarrow> U_scan t ws
      | Some p \<Rightarrow>
          (case node_at t p of
             None \<Rightarrow> U_scan t ws
           | Some pn \<Rightarrow>
               (let (keep, cnt) = U_scan t ws in (w # keep, (visits pn + cnt) mod 2 ^ 32))))"

definition U_denominator :: "('b, 'm) MCTSNode \<Rightarrow> real" where
  "U_denominator n = double (1 + double (of_nat (visits n)))"

definition U_value :: "('b, 'm) MCTSNode \<Rightarrow> nat \<Rightarrow> real" where
  "U_value n parent_visit_count =
     single (double (single (C * single (sqrt (single (of_nat parent_visit_count))))
                     / U_denominator n))"

definition U :: "addr \<Rightarrow> ('b, 'm) MCTSTree \<Rightarrow> real \<times> ('b, 'm) MCTSTree" where
  "U a t =
     (case node_at t a of
        None \<Rightarrow> (0, t)
      | Some n \<Rightarrow>
          (let (keep, cnt) = U_scan t (parents n)
           in (U_value n cnt, upd a (\<lambda>n. n\<lparr>parents := keep\<rparr>) t)))"

text \<open>\<^verbatim>\<open>MCTSTree::transposition_hitrate\<close>: the quotient of two \<^verbatim>\<open>float\<close>s.\<close>

definition hitrate_denominator :: "('b, 'm) MCTSTree \<Rightarrow> real" where
  "hitrate_denominator t = single (of_nat (total_lookups t))"

definition transposition_hitrate :: "('b, 'm) MCTSTree \<Rightarrow> real option" where
  "transposition_hitrate t =
     (if hitrate_denominator t = 0 then None
      else Some (single (single (of_nat (total_hits t)) / hitrate_denominator t)))"

section \<open>Selection, expansion, backpropagation\<close>

text \<open>
  \<^verbatim>\<open>MCTSNode::max_PUCT\<close>: \<open>best\<close> is \<open>None\<close> for minus infinity and the best node is
  \<open>None\<close> for \<^verbatim>\<open>nullptr\<close>.
\<close>

fun max_PUCT_loop :: "addr list \<Rightarrow> real option \<Rightarrow> addr option \<Rightarrow> ('b, 'm) MCTSTree \<Rightarrow>
    addr option \<times> ('b, 'm) MCTSTree" where
  "max_PUCT_loop [] best_PUCT best_node t = (best_node, t)"
| "max_PUCT_loop (child # rest) best_PUCT best_node t =
     (case node_at t child of
        None \<Rightarrow> max_PUCT_loop rest best_PUCT best_node t
      | Some cn \<Rightarrow>
          (let (u, t1) = U child t;
               PUCT = single (single (1 - Q cn) + u)
           in if (case best_PUCT of None \<Rightarrow> True | Some b \<Rightarrow> b < PUCT)
              then max_PUCT_loop rest (Some PUCT) (Some child) t1
              else max_PUCT_loop rest best_PUCT best_node t1))"

definition max_PUCT :: "addr \<Rightarrow> ('b, 'm) MCTSTree \<Rightarrow> addr option \<times> ('b, 'm) MCTSTree" where
  "max_PUCT a t =
     (case node_at t a of
        None \<Rightarrow> (None, t)
      | Some n \<Rightarrow> max_PUCT_loop (children n) None None t)"

definition visit :: "addr \<Rightarrow> ('b, 'm) MCTSTree \<Rightarrow> ('b, 'm) MCTSTree" where
  "visit a t = upd a (\<lambda>n. n\<lparr>visits := visits n + 1\<rparr>) t"

text \<open>
  \<^verbatim>\<open>MCTSNode::select\<close>. The descent need not end when expanded nodes lie on a cycle, so
  the loop takes a bound on its iterations and \<open>None\<close> says that the bound was reached.
\<close>

fun select_loop :: "nat \<Rightarrow> addr \<Rightarrow> addr list \<Rightarrow> ('b, 'm) MCTSTree \<Rightarrow>
    (fault + addr list \<times> ('b, 'm) MCTSTree) option" where
  "select_loop 0 cur_node path t = None"
| "select_loop (Suc k) cur_node path t =
     (case node_at t cur_node of
        None \<Rightarrow> Some (Inl Null_dereference)
      | Some n \<Rightarrow>
          if expanded n then
            (let (new_node, t1) = max_PUCT cur_node t;
                 t2 = visit cur_node t1
             in case new_node of
                  None \<Rightarrow> Some (Inl Null_dereference)
                | Some c \<Rightarrow> select_loop k c (path @ [cur_node]) t2)
          else Some (Inr (path @ [cur_node], visit cur_node t)))"

definition select :: "nat \<Rightarrow> addr \<Rightarrow> ('b, 'm) MCTSTree \<Rightarrow>
    (fault + addr list \<times> ('b, 'm) MCTSTree) option" where
  "select k a t = select_loop k a [] t"

text \<open>\<^verbatim>\<open>MCTSNode::expand\<close>: the flag is raised inside the loop over the moves.\<close>

fun expand_loop :: "('b, 'm) rules \<Rightarrow> addr \<Rightarrow> 'b \<Rightarrow> 'm list \<Rightarrow> ('b, 'm) MCTSTree \<Rightarrow>
    fault + ('b, 'm) MCTSTree" where
  "expand_loop R a b [] t = Inr t"
| "expand_loop R a b (mv # mvs) t =
     (let t1 = upd a (\<lambda>n. n\<lparr>expanded := True\<rparr>) t;
          new_board = move R b mv
      in case get_node R new_board (Some a) t1 of
           Inl e \<Rightarrow> Inl e
         | Inr (new_node, t2) \<Rightarrow>
             expand_loop R a b mvs (upd a (\<lambda>n. n\<lparr>children := children n @ [new_node]\<rparr>) t2))"

definition expand :: "('b, 'm) rules \<Rightarrow> addr \<Rightarrow> ('b, 'm) MCTSTree \<Rightarrow> fault + ('b, 'm) MCTSTree" where
  "expand R a t =
     (case node_at t a of
        None \<Rightarrow> Inl Null_dereference
      | Some n \<Rightarrow>
          (let t1 = visit a t
           in if expanded n then Inr t1 else expand_loop R a (board n) (moves n) t1))"

text \<open>\<^verbatim>\<open>MCTSNode::backpropagate\<close>; only the winner of the final board is read.\<close>

definition credit :: "('b, 'm) rules \<Rightarrow> int \<Rightarrow> ('b, 'm) MCTSNode \<Rightarrow> ('b, 'm) MCTSNode" where
  "credit R winner n =
     (if winner = player R (board n) then n\<lparr>wins := wins n + 1\<rparr>
      else if winner = PLAYER_TIE R then n\<lparr>ties := ties n + 1\<rparr>
      else n)"

fun backpropagate_loop :: "('b, 'm) rules \<Rightarrow> int \<Rightarrow> addr list \<Rightarrow> ('b, 'm) MCTSTree \<Rightarrow>
    ('b, 'm) MCTSTree" where
  "backpropagate_loop R winner [] t = t"
| "backpropagate_loop R winner (a # path) t =
     backpropagate_loop R winner path (upd a (credit R winner) t)"

definition backpropagate :: "('b, 'm) rules \<Rightarrow> 'b \<Rightarrow> addr list \<Rightarrow> ('b, 'm) MCTSTree \<Rightarrow>
    ('b, 'm) MCTSTree" where
  "backpropagate R final path t = backpropagate_loop R (game_winner R final) path t"

text \<open>
  \<^verbatim>\<open>MCTSTree::mcts\<close>. The random playout \<^verbatim>\<open>simulate\<close> belongs to the environment: the
  final board of the playout of each iteration is given, and the number of iterations
  is the length of that list.
\<close>

fun mcts_loop :: "('b, 'm) rules \<Rightarrow> nat \<Rightarrow> addr \<Rightarrow> 'b list \<Rightarrow> ('b, 'm) MCTSTree \<Rightarrow>
    (fault + ('b, 'm) MCTSTree) option" where
  "mcts_loop R k node [] t = Some (Inr t)"
| "mcts_loop R k node (final # finals) t =
     (case select k node t of
        None \<Rightarrow> None
      | Some (Inl e) \<Rightarrow> Some (Inl e)
      | Some (Inr (path, t1)) \<Rightarrow>
          (let leaf = last path;
               t2 = backpropagate R final path t1
           in case node_at t2 leaf of
                None \<Rightarrow> Some (Inl Null_dereference)
              | Some leaf_node \<Rightarrow>
                  if game_winner R (board leaf_node) = PLAYER_NONE R then
                    (case expand R leaf t2 of
                       Inl e \<Rightarrow> Some (Inl e)
                     | Inr t3 \<Rightarrow> mcts_loop R k node finals t3)
                  else mcts_loop R k node finals t2))"

definition mcts :: "('b, 'm) rules \<Rightarrow> nat \<Rightarrow> 'b \<Rightarrow> 'b list \<Rightarrow> ('b, 'm) MCTSTree \<Rightarrow>
    (fault + ('b, 'm) MCTSTree) option" where
  "mcts R k b finals t =
     (case get_node R b None t of
        Inl e \<Rightarrow> Some (Inl e)
      | Inr (node, t1) \<Rightarrow> mcts_loop R k node finals t1)"

section \<open>Pruning\<close>

text \<open>
  \<^verbatim>\<open>MCTSTree::prune\<close>. The queue is filled with the roots once and never again; the loop
  runs on the size of the table alone, and \<^verbatim>\<open>front()\<close> of an empty queue is undefined.
  The threshold is kept in the \<^verbatim>\<open>unsigned max_visits\<close>.
\<close>

definition max_visits_of :: "('b, 'm) MCTSNode \<Rightarrow> nat" where
  "max_visits_of node =
     foldl (\<lambda>max_visits child.
              if visits node < max_visits then max_visits else visits node mod 2 ^ 32)
       0 (children node)"

fun prune_children_of :: "nat \<Rightarrow> addr list \<Rightarrow> ('b, 'm) MCTSTree \<Rightarrow> ('b, 'm) MCTSTree" where
  "prune_children_of max_visits [] t = t"
| "prune_children_of max_visits (child # rest) t =
     (case node_at t child of
        None \<Rightarrow> prune_children_of max_visits rest t
      | Some cn \<Rightarrow>
          prune_children_of max_visits rest
            (if visits cn \<le> max_visits then filicide child t else t))"

definition inspect :: "addr \<Rightarrow> ('b, 'm) MCTSTree \<Rightarrow> ('b, 'm) MCTSTree" where
  "inspect a t =
     (case node_at t a of
        None \<Rightarrow> t
      | Some node \<Rightarrow> prune_children_of (max_visits_of node) (children node) t)"

fun prune_loop :: "nat \<Rightarrow> addr list \<Rightarrow> ('b, 'm) MCTSTree \<Rightarrow> fault + ('b, 'm) MCTSTree" where
  "prune_loop max_size [] t =
     (if max_size < length (transposition_table t) then Inl Front_of_empty_queue else Inr t)"
| "prune_loop max_size (node # inspection_queue) t =
     (if max_size < length (transposition_table t)
      then prune_loop max_size inspection_queue (inspect node t)
      else Inr t)"

definition prune :: "nat \<Rightarrow> ('b, 'm) MCTSTree \<Rightarrow> fault + ('b, 'm) MCTSTree" where
  "prune max_size t = prune_loop max_size (roots t) t"








section \<open>Notions used in the statements\<close>


text \<open>What \<open>filicide\<close> leaves of a node: nothing changes unless it was expanded.\<close>

definition emptied :: "('b, 'm) MCTSNode \<Rightarrow> ('b, 'm) MCTSNode" where
  "emptied n = (if expanded n then n\<lparr>children := [], expanded := False\<rparr> else n)"

text \<open>Reading a node out of a result.\<close>

definition node_of :: "fault + ('b, 'm) MCTSTree \<Rightarrow> addr \<Rightarrow> ('b, 'm) MCTSNode option" where
  "node_of r a = (case r of Inl e \<Rightarrow> None | Inr t \<Rightarrow> node_at t a)"


definition then_do :: "'e + 'a \<Rightarrow> ('a \<Rightarrow> 'e + 'b) \<Rightarrow> 'e + 'b" where
  "then_do x f = (case x of Inl e \<Rightarrow> Inl e | Inr t \<Rightarrow> f t)"

text \<open>
  The invariant of a node in the form the operations keep: the child
  vector of an expanded node is as long as its move list and that of an unexpanded node
  is empty. Between \<open>select\<close> and \<open>backpropagate\<close> every node owes one visit for each of
  its occurrences on the path; \<open>growing\<close> is the state of the store inside the loop of
  \<open>expand\<close>, with \<open>ms\<close> the moves still to be made.
\<close>

definition shape :: "('b, 'm) MCTSNode \<Rightarrow> bool" where
  "shape n = (if expanded n then length (children n) = length (moves n) else children n = [])"

definition owing :: "addr list \<Rightarrow> ('b, 'm) MCTSTree \<Rightarrow> bool" where
  "owing path t =
     (\<forall>a n. node_at t a = Some n \<longrightarrow>
        shape n \<and> wins n + ties n + count_list path a \<le> visits n)"

definition growing :: "addr \<Rightarrow> 'm list \<Rightarrow> ('b, 'm) MCTSTree \<Rightarrow> bool" where
  "growing a ms t =
     (\<forall>x n. node_at t x = Some n \<longrightarrow>
        wins n + ties n \<le> visits n
        \<and> (if x = a
           then length (children n) + length ms = length (moves n)
                \<and> (expanded n \<or> children n = [])
           else shape n))"

text \<open>
  The states of the iteration loop of \<open>mcts\<close>: the empty tree, the tree after the lookup
  of a root, after a selection, after the backpropagation that follows a selection (for
  any final board of the playout) and after an expansion.
\<close>

inductive mcts_reach :: "('b, 'm) rules \<Rightarrow> ('b, 'm) MCTSTree \<Rightarrow> bool" for R where
  start: "mcts_reach R empty_tree"
| root: "mcts_reach R t \<Longrightarrow> get_node R b None t = Inr (a, t') \<Longrightarrow> mcts_reach R t'"
| selected: "mcts_reach R t \<Longrightarrow> select k a t = Some (Inr (path, t')) \<Longrightarrow> mcts_reach R t'"
| played: "mcts_reach R t \<Longrightarrow> select k a t = Some (Inr (path, t1)) \<Longrightarrow>
     mcts_reach R (backpropagate R final path t1)"
| grown: "mcts_reach R t \<Longrightarrow> expand R a t = Inr t' \<Longrightarrow> mcts_reach R t'"

text \<open>The unit in the last place of the result of rounding \<open>x\<close> to \<open>p\<close> bits.\<close>

definition scale :: "nat \<Rightarrow> real \<Rightarrow> real" where
  "scale p x = pow2 (\<lfloor>log 2 x\<rfloor> - int p + 1)"

text \<open>The score \<^verbatim>\<open>Q() + U()\<close> of a child, as \<open>prune_children\<close> computes it.\<close>

definition QU_of :: "('b, 'm) MCTSTree \<Rightarrow> addr \<Rightarrow> real" where
  "QU_of t c = (case node_at t c of None \<Rightarrow> 0 | Some cn \<Rightarrow> single (Q cn + fst (U c t)))"

text \<open>
  The table is sound when every entry names a slot of the store and a live node found
  there has the board of the entry.
\<close>

definition table_sound :: "('b, 'm) MCTSTree \<Rightarrow> bool" where
  "table_sound t =
     (\<forall>b a. map_of (transposition_table t) b = Some a \<longrightarrow>
        a < length (nodes t) \<and> (\<forall>n. node_at t a = Some n \<longrightarrow> board n = b))"



text \<open>
  The test that \<open>prune_children\<close> makes on the child at position \<open>i\<close>, with the scores
  taken in the tree \<open>t\<close>; what the loop makes of that child, whose expired parent entries
  \<^verbatim>\<open>U()\<close> has erased; and the state of the loop in front of position \<open>i\<close> when it was
  started in \<open>t0\<close>.
\<close>

definition discards :: "('b, 'm) MCTSTree \<Rightarrow> real list \<Rightarrow> addr list \<Rightarrow> nat \<Rightarrow> bool" where
  "discards t Qs cs i = (\<exists>j<length cs. j \<noteq> i \<and> QU_of t (cs ! i) < Qs ! j)"

definition pruned_child :: "('b, 'm) MCTSTree \<Rightarrow> real list \<Rightarrow> addr list \<Rightarrow> nat \<Rightarrow>
    ('b, 'm) MCTSNode \<Rightarrow> ('b, 'm) MCTSNode" where
  "pruned_child t Qs cs i ci =
     (if discards t Qs cs i then emptied ci else ci)\<lparr>parents := fst (U_scan t (parents ci))\<rparr>"


section \<open>An example game and trees grown from it\<close>

text \<open>
  Boards and moves are numbers and a move names the board it leads to: board 0 has the
  successors 1 and 2, board 1 has 3 and 4, board 2 has 5, board 4 has 6, and the boards
  3, 5 and 6 are terminal. Every tree below is the result of the calls named in the lemma
  that follows it.
\<close>


definition example_game :: "(nat, nat) rules" where
  "example_game = \<lparr>get_valid_moves = (\<lambda>b. if b = 0 then [1, 2] else if b = 1 then [3, 4]
        else if b = 2 then [5] else if b = 4 then [6] else []),
     move = (\<lambda>b m. m), game_winner = (\<lambda>b. if b \<in> {0, 1, 2, 4} then 0 else 1),
     player = (\<lambda>b. 1 + int (b mod 2)), PLAYER_NONE = 0, PLAYER_TIE = 3\<rparr>"

definition lone_root :: "(nat, nat) MCTSTree" where
  "lone_root = \<lparr>nodes = [Some \<lparr>board = 3, moves = [], parents = [None], children = [],
       visits = 0, wins = 0, ties = 0, expanded = False\<rparr>],
     transposition_table = [(3, 0)], roots = [0], total_lookups = 1, total_hits = 0,
     total_fillicides = 0, held = []\<rparr>"

definition grown :: "(nat, nat) MCTSTree" where
  "grown = \<lparr>nodes =
        [Some \<lparr>board = 0, moves = [1, 2], parents = [None], children = [1, 2],
             visits = 3, wins = 0, ties = 0, expanded = True\<rparr>,
         Some \<lparr>board = 1, moves = [3, 4], parents = [Some 0], children = [3, 4],
             visits = 1, wins = 0, ties = 0, expanded = True\<rparr>,
         Some \<lparr>board = 2, moves = [5], parents = [Some 0], children = [5],
             visits = 2, wins = 0, ties = 0, expanded = True\<rparr>,
         Some \<lparr>board = 3, moves = [], parents = [Some 1], children = [],
             visits = 0, wins = 0, ties = 0, expanded = False\<rparr>,
         Some \<lparr>board = 4, moves = [6], parents = [Some 1], children = [],
             visits = 0, wins = 0, ties = 0, expanded = False\<rparr>,
         Some \<lparr>board = 5, moves = [], parents = [Some 2], children = [],
             visits = 0, wins = 0, ties = 0, expanded = False\<rparr>],
        transposition_table = [(0, 0), (1, 1), (2, 2), (3, 3), (4, 4), (5, 5)],
        roots = [0], total_lookups = 6, total_hits = 0,
        total_fillicides = 0, held = []\<rparr>"

definition two_roots :: "(nat, nat) MCTSTree" where
  "two_roots = \<lparr>nodes =
        [Some \<lparr>board = 1, moves = [3, 4], parents = [None, Some 1], children = [],
             visits = 0, wins = 0, ties = 0, expanded = False\<rparr>,
         Some \<lparr>board = 0, moves = [1, 2], parents = [None], children = [0, 2],
             visits = 1, wins = 0, ties = 0, expanded = True\<rparr>,
         Some \<lparr>board = 2, moves = [5], parents = [Some 1], children = [],
             visits = 0, wins = 0, ties = 0, expanded = False\<rparr>],
        transposition_table = [(1, 0), (0, 1), (2, 2)], roots = [0, 1], total_lookups = 4,
        total_hits = 1, total_fillicides = 0, held = []\<rparr>"

definition family_tree :: "(nat, nat) MCTSTree" where
  "family_tree = \<lparr>nodes =
        [Some \<lparr>board = 0, moves = [1, 2], parents = [None], children = [1, 2],
             visits = 1, wins = 0, ties = 0, expanded = True\<rparr>,
         Some \<lparr>board = 1, moves = [3, 4], parents = [Some 0], children = [3, 4],
             visits = 1, wins = 0, ties = 0, expanded = True\<rparr>,
         Some \<lparr>board = 2, moves = [5], parents = [Some 0], children = [5],
             visits = 1, wins = 0, ties = 0, expanded = True\<rparr>,
         Some \<lparr>board = 3, moves = [], parents = [Some 1], children = [],
             visits = 0, wins = 0, ties = 0, expanded = False\<rparr>,
         Some \<lparr>board = 4, moves = [6], parents = [Some 1], children = [6],
             visits = 1, wins = 0, ties = 0, expanded = True\<rparr>,
         Some \<lparr>board = 5, moves = [], parents = [Some 2], children = [],
             visits = 0, wins = 0, ties = 0, expanded = False\<rparr>,
         Some \<lparr>board = 6, moves = [], parents = [Some 4], children = [],
             visits = 0, wins = 0, ties = 0, expanded = False\<rparr>],
        transposition_table = [(0, 0), (1, 1), (2, 2), (3, 3), (4, 4), (5, 5), (6, 6)],
        roots = [0], total_lookups = 7, total_hits = 0,
        total_fillicides = 0, held = []\<rparr>"

definition first_iteration :: "(nat, nat) MCTSTree" where
  "first_iteration = \<lparr>nodes =
        [Some \<lparr>board = 0, moves = [1, 2], parents = [None], children = [1, 2],
             visits = 2, wins = 1, ties = 0, expanded = True\<rparr>,
         Some \<lparr>board = 1, moves = [3, 4], parents = [Some 0], children = [],
             visits = 0, wins = 0, ties = 0, expanded = False\<rparr>,
         Some \<lparr>board = 2, moves = [5], parents = [Some 0], children = [],
             visits = 0, wins = 0, ties = 0, expanded = False\<rparr>],
        transposition_table = [(0, 0), (1, 1), (2, 2)],
        roots = [0], total_lookups = 3, total_hits = 0,
        total_fillicides = 0, held = []\<rparr>"

text \<open>
  A terminal node that the player to move has won at each of its \<open>2 ^ 24\<close> visits.
\<close>

definition saturated :: "(nat, nat) MCTSNode" where
  "saturated = \<lparr>board = 6, moves = [], parents = [Some 4], children = [],
     visits = 16777216, wins = 16777216, ties = 0, expanded = False\<rparr>"

definition lopsided :: "(nat, nat) MCTSTree" where
  "lopsided = \<lparr>nodes =
        [Some \<lparr>board = 0, moves = [1, 2], parents = [None], children = [1, 2],
             visits = 1, wins = 0, ties = 0, expanded = True\<rparr>,
         Some \<lparr>board = 1, moves = [3, 4], parents = [Some 0], children = [3, 4],
             visits = 1, wins = 0, ties = 0, expanded = True\<rparr>,
         Some \<lparr>board = 2, moves = [5], parents = [Some 0], children = [],
             visits = 0, wins = 0, ties = 0, expanded = False\<rparr>,
         Some \<lparr>board = 3, moves = [], parents = [Some 1], children = [],
             visits = 0, wins = 0, ties = 0, expanded = False\<rparr>,
         Some \<lparr>board = 4, moves = [6], parents = [Some 1], children = [],
             visits = 0, wins = 0, ties = 0, expanded = False\<rparr>],
        transposition_table = [(0, 0), (1, 1), (2, 2), (3, 3), (4, 4)],
        roots = [0], total_lookups = 5, total_hits = 0,
        total_fillicides = 0, held = []\<rparr>"

text \<open>
  The root was expanded once, child 1 three times and child 2 once, and child 2 has won
  its one playout.
\<close>

definition contested :: "(nat, nat) MCTSTree" where
  "contested = \<lparr>nodes =
        [Some \<lparr>board = 0, moves = [1, 2], parents = [None], children = [1, 2],
             visits = 1, wins = 0, ties = 0, expanded = True\<rparr>,
         Some \<lparr>board = 1, moves = [3, 4], parents = [Some 0], children = [3, 4],
             visits = 3, wins = 0, ties = 0, expanded = True\<rparr>,
         Some \<lparr>board = 2, moves = [5], parents = [Some 0], children = [5],
             visits = 1, wins = 1, ties = 0, expanded = True\<rparr>,
         Some \<lparr>board = 3, moves = [], parents = [Some 1], children = [],
             visits = 0, wins = 0, ties = 0, expanded = False\<rparr>,
         Some \<lparr>board = 4, moves = [6], parents = [Some 1], children = [],
             visits = 0, wins = 0, ties = 0, expanded = False\<rparr>,
         Some \<lparr>board = 5, moves = [], parents = [Some 2], children = [],
             visits = 0, wins = 0, ties = 0, expanded = False\<rparr>],
        transposition_table = [(0, 0), (1, 1), (2, 2), (3, 3), (4, 4), (5, 5)],
        roots = [0], total_lookups = 6, total_hits = 0,
        total_fillicides = 0, held = []\<rparr>"

section \<open>Basic facts\<close>

lemma node_at_other_fields [simp]:
  "node_at (total_lookups_update f1 t) = node_at t"
  "node_at (total_hits_update f2 t) = node_at t"
  "node_at (total_fillicides_update f3 t) = node_at t"
  "node_at (roots_update f4 t) = node_at t"
  "node_at (transposition_table_update f5 t) = node_at t"
  "node_at (held_update f6 t) = node_at t"
  by (simp_all add: node_at_def fun_eq_iff)

lemma get_node_miss:
  "map_of (transposition_table t) b = None \<Longrightarrow>
   get_node R b None t = Inr (length (nodes t),
     t\<lparr>total_lookups := total_lookups t + 1,
       nodes := nodes t @ [Some (new_MCTSNode R b None)],
       transposition_table := transposition_table t @ [(b, length (nodes t))],
       roots := roots t @ [length (nodes t)]\<rparr>)"
  by (subst get_node.simps) (simp add: Let_def)

lemma get_node_hit:
  "map_of (transposition_table t) b = Some a \<Longrightarrow> node_at t a = Some n \<Longrightarrow>
   get_node R b None t = Inr (a, t\<lparr>total_lookups := total_lookups t + 1,
     total_hits := total_hits t + 1\<rparr>)"
  by (subst get_node.simps) (simp add: Let_def)

lemma get_node_stale:
  "map_of (transposition_table t) b = Some a \<Longrightarrow> node_at t a = None \<Longrightarrow>
   get_node R b p t = get_node R b p
     (t\<lparr>total_lookups := total_lookups t + 1,
        transposition_table := erase b (transposition_table t)\<rparr>)"
  by (subst get_node.simps) (simp add: Let_def)

lemma node_at_upd:
  "node_at (upd a f t) b = (if b = a then map_option f (node_at t a) else node_at t b)"
  by (auto simp: upd_def node_at_def split: option.splits)

lemma map_of_erase_other: "b' \<noteq> b \<Longrightarrow> map_of (erase b tab) b' = map_of tab b'"
  by (induction tab) (auto simp: erase_def)

lemma table_sound_erase:
  assumes "table_sound t"
  shows "table_sound (t\<lparr>total_lookups := l,
     transposition_table := erase b (transposition_table t)\<rparr>)"
  unfolding table_sound_def
proof (intro allI impI)
  fix b' a
  assume e: "map_of (transposition_table (t\<lparr>total_lookups := l,
     transposition_table := erase b (transposition_table t)\<rparr>)) b' = Some a"
  then have "b' \<noteq> b" by (auto simp: map_of_erase)
  with e have "map_of (transposition_table t) b' = Some a" by (simp add: map_of_erase_other)
  with assms show "a < length (nodes (t\<lparr>total_lookups := l,
        transposition_table := erase b (transposition_table t)\<rparr>))
     \<and> (\<forall>n. node_at (t\<lparr>total_lookups := l,
        transposition_table := erase b (transposition_table t)\<rparr>) a = Some n \<longrightarrow> board n = b')"
    unfolding table_sound_def by simp
qed

lemma table_sound_counters:
  "table_sound (t\<lparr>total_lookups := l, total_hits := h\<rparr>) = table_sound t"
  by (simp add: table_sound_def)

lemma table_sound_miss:
  assumes "table_sound t" and "map_of (transposition_table t) b = None"
  shows "table_sound (t\<lparr>total_lookups := l,
       nodes := nodes t @ [Some (new_MCTSNode R b p)],
       transposition_table := transposition_table t @ [(b, length (nodes t))],
       roots := rs\<rparr>)"
  unfolding table_sound_def
proof (intro allI impI)
  fix b' a
  let ?t = "t\<lparr>total_lookups := l,
       nodes := nodes t @ [Some (new_MCTSNode R b p)],
       transposition_table := transposition_table t @ [(b, length (nodes t))],
       roots := rs\<rparr>"
  assume e: "map_of (transposition_table ?t) b' = Some a"
  show "a < length (nodes ?t) \<and> (\<forall>n. node_at ?t a = Some n \<longrightarrow> board n = b')"
  proof (cases "map_of (transposition_table t) b'")
    case None
    with e have "b' = b" "a = length (nodes t)"
      by (auto simp: map_add_def split: if_splits)
    then show ?thesis by (simp add: node_at_def new_MCTSNode_def)
  next
    case (Some a')
    with e have "a = a'" by (simp add: map_add_def)
    with Some assms(1) have "a < length (nodes t)"
      "\<forall>n. node_at t a = Some n \<longrightarrow> board n = b'"
      unfolding table_sound_def by blast+
    then show ?thesis by (simp add: node_at_def nth_append)
  qed
qed

lemma get_node_fresh:
  assumes miss: "map_of (transposition_table t) b = None"
  shows "\<exists>a n t1 t2. get_node R b None t = Inr (a, t1)
     \<and> node_at t1 a = Some n \<and> map_of (transposition_table t1) b = Some a
     \<and> board n = b \<and> (table_sound t \<longrightarrow> table_sound t1)
     \<and> get_node R b None t1 = Inr (a, t2)
     \<and> t2 = t1\<lparr>total_lookups := total_lookups t1 + 1, total_hits := total_hits t1 + 1\<rparr>"
proof -
  let ?a = "length (nodes t)"
  let ?n = "new_MCTSNode R b None"
  let ?t1 = "t\<lparr>total_lookups := total_lookups t + 1,
       nodes := nodes t @ [Some ?n],
       transposition_table := transposition_table t @ [(b, length (nodes t))],
       roots := roots t @ [length (nodes t)]\<rparr>"
  have first: "get_node R b None t = Inr (?a, ?t1)"
    using miss by (rule get_node_miss)
  have tab: "map_of (transposition_table ?t1) b = Some ?a"
    using miss by (simp add: map_add_def)
  have node: "node_at ?t1 ?a = Some ?n"
    by (simp add: node_at_def)
  from tab node have second: "get_node R b None ?t1 =
      Inr (?a, ?t1\<lparr>total_lookups := total_lookups ?t1 + 1, total_hits := total_hits ?t1 + 1\<rparr>)"
    by (rule get_node_hit)
  have sound: "table_sound t \<longrightarrow> table_sound ?t1"
    using miss by (auto intro: table_sound_miss)
  have b: "board ?n = b" by (simp add: new_MCTSNode_def)
  from first node tab b sound second show ?thesis by blast
qed

lemma table_sound_empty: "table_sound empty_tree"
  by (simp add: table_sound_def empty_tree_def)


lemma roots_destroy [simp]: "roots (destroy a n t) = roots t"
  and held_destroy [simp]: "held (destroy a n t) = held t"
  by (simp_all add: destroy_def)

lemma roots_release [simp]: "roots (release as t) = roots t"
  by (induction as t rule: release.induct) (auto split: option.splits)

lemma held_release [simp]: "held (release as t) = held t"
  by (induction as t rule: release.induct) (auto split: option.splits)







lemma roots_upd [simp]: "roots (upd a f t) = roots t"
  and held_upd [simp]: "held (upd a f t) = held t"
  by (simp_all add: upd_def split: option.splits)




lemma roots_filicide [simp]: "roots (filicide c t) = roots t"
  by (simp add: filicide_def split: option.splits)




lemma get_node_miss_any:
  "map_of (transposition_table t) b = None \<Longrightarrow>
   get_node R b p t = Inr (length (nodes t),
     (if p = None then roots_update (\<lambda>rs. rs @ [length (nodes t)]) else id)
     (t\<lparr>total_lookups := total_lookups t + 1,
       nodes := nodes t @ [Some (new_MCTSNode R b p)],
       transposition_table := transposition_table t @ [(b, length (nodes t))]\<rparr>))"
  by (subst get_node.simps) (simp add: Let_def)

lemma get_node_hit_any:
  "map_of (transposition_table t) b = Some a \<Longrightarrow> node_at t a = Some n \<Longrightarrow>
   get_node R b p t = Inr (c, t') \<Longrightarrow>
   c = a \<and> (\<forall>x. node_at t' x = (if x = a \<and> p \<noteq> None
        then Some (n\<lparr>parents := parents n @ [p]\<rparr>) else node_at t x))"
  by (subst (asm) get_node.simps) (auto simp: Let_def node_at_upd split: if_splits)

lemma get_node_miss_effect:
  assumes "map_of (transposition_table t) b = None" and "get_node R b p t = Inr (c, t')"
  shows "c = length (nodes t) \<and> (\<forall>x. node_at t' x =
      (if x = length (nodes t) then Some (new_MCTSNode R b p) else node_at t x))"
  using assms(2) unfolding get_node_miss_any [OF assms(1)]
  by (cases p) (auto simp: node_at_def nth_append)

lemma get_node_effect:
  assumes "get_node R b p t = Inr (c, t')"
  shows "\<forall>x. node_at t' x = node_at t x
      \<or> (\<exists>n. node_at t x = Some n \<and> node_at t' x = Some (n\<lparr>parents := parents n @ [p]\<rparr>))
      \<or> (node_at t x = None \<and> node_at t' x = Some (new_MCTSNode R b p))"
proof (cases "map_of (transposition_table t) b")
  case None
  from get_node_miss_effect [OF None assms] show ?thesis
    by (auto simp: node_at_def)
next
  case (Some a)
  show ?thesis
  proof (cases "node_at t a")
    case None
    let ?t = "t\<lparr>total_lookups := total_lookups t + 1,
        transposition_table := erase b (transposition_table t)\<rparr>"
    have "get_node R b p ?t = Inr (c, t')"
      using get_node_stale [OF Some None, of R p] assms by simp
    moreover have "map_of (transposition_table ?t) b = None" by (simp add: map_of_erase)
    ultimately have "c = length (nodes ?t) \<and> (\<forall>x. node_at t' x =
      (if x = length (nodes ?t) then Some (new_MCTSNode R b p) else node_at ?t x))"
      by (rule get_node_miss_effect [rotated])
    then show ?thesis by (auto simp: node_at_def)
  next
    case n: (Some n)
    from get_node_hit_any [OF Some n assms]
    have *: "\<forall>x. node_at t' x = (if x = a \<and> p \<noteq> None
        then Some (n\<lparr>parents := parents n @ [p]\<rparr>) else node_at t x)" by simp
    show ?thesis
    proof
      fix x
      show "node_at t' x = node_at t x
        \<or> (\<exists>n. node_at t x = Some n \<and> node_at t' x = Some (n\<lparr>parents := parents n @ [p]\<rparr>))
        \<or> (node_at t x = None \<and> node_at t' x = Some (new_MCTSNode R b p))"
        using * n by (cases "x = a \<and> p \<noteq> None") simp_all
    qed
  qed
qed


lemma owing_upd:
  assumes "owing p t"
    and "\<And>n. node_at t a = Some n \<Longrightarrow>
       shape (f n) \<and> wins (f n) + ties (f n) + count_list p a \<le> visits (f n)"
  shows "owing p (upd a f t)"
  using assms unfolding owing_def by (auto simp: node_at_upd)

lemma owing_parents:
  "owing p t \<Longrightarrow> owing p (upd a (\<lambda>n. n\<lparr>parents := ps n\<rparr>) t)"
  by (rule owing_upd) (auto simp: owing_def shape_def)

lemma owing_U: "owing p t \<Longrightarrow> U a t = (u, t') \<Longrightarrow> owing p t'"
  by (auto simp: U_def split: option.splits prod.splits intro: owing_parents)

lemma owing_max_PUCT_loop:
  "owing p t \<Longrightarrow> max_PUCT_loop cs best bn t = (r, t') \<Longrightarrow> owing p t'"
proof (induction cs arbitrary: best bn t)
  case Nil
  then show ?case by simp
next
  case (Cons c cs)
  show ?case
  proof (cases "node_at t c")
    case None
    with Cons show ?thesis by simp
  next
    case (Some cn)
    obtain u t1 where u: "U c t = (u, t1)" by (cases "U c t")
    with Cons.prems have "owing p t1" by (auto intro: owing_U)
    with Cons.IH Cons.prems Some u show ?thesis
      by (auto simp: Let_def split: if_splits)
  qed
qed

lemma owing_max_PUCT: "owing p t \<Longrightarrow> max_PUCT a t = (r, t') \<Longrightarrow> owing p t'"
  by (auto simp: max_PUCT_def split: option.splits intro: owing_max_PUCT_loop)

lemma owing_visit: "owing p t \<Longrightarrow> owing (p @ [a]) (visit a t)"
  unfolding owing_def visit_def by (auto simp: node_at_upd shape_def)

lemma owing_select_loop:
  "owing path t \<Longrightarrow> select_loop k cur path t = Some (Inr (path', t')) \<Longrightarrow> owing path' t'"
proof (induction k arbitrary: cur path t)
  case 0
  then show ?case by simp
next
  case (Suc k)
  from Suc.prems obtain n where n: "node_at t cur = Some n"
    by (auto split: option.splits)
  show ?case
  proof (cases "expanded n")
    case False
    with Suc.prems n show ?thesis by (auto intro: owing_visit)
  next
    case True
    obtain new t1 where m: "max_PUCT cur t = (new, t1)" by (cases "max_PUCT cur t")
    with Suc.prems n True obtain c where c: "new = Some c"
      and rec: "select_loop k c (path @ [cur]) (visit cur t1) = Some (Inr (path', t'))"
      by (auto split: option.splits)
    from Suc.prems(1) m have "owing path t1" by (rule owing_max_PUCT)
    then have "owing (path @ [cur]) (visit cur t1)" by (rule owing_visit)
    from Suc.IH [OF this rec] show ?thesis .
  qed
qed

lemma shape_credit [simp]: "shape (credit R w n) = shape n"
  by (simp add: credit_def shape_def)

lemma credit_bound:
  "wins (credit R w n) + ties (credit R w n) \<le> wins n + ties n + 1"
  "visits (credit R w n) = visits n"
  by (simp_all add: credit_def)

lemma owing_credit:
  assumes "owing (a # path) t"
  shows "owing path (upd a (credit R w) t)"
  unfolding owing_def
proof (intro allI impI)
  fix x n
  assume x: "node_at (upd a (credit R w) t) x = Some n"
  show "shape n \<and> wins n + ties n + count_list path x \<le> visits n"
  proof (cases "x = a")
    case True
    with x obtain m where m: "node_at t a = Some m" "n = credit R w m"
      by (auto simp: node_at_upd)
    with assms have "shape m \<and> wins m + ties m + count_list (a # path) a \<le> visits m"
      unfolding owing_def by blast
    with m True credit_bound [of R w m] show ?thesis by simp
  next
    case False
    with x have "node_at t x = Some n" by (simp add: node_at_upd)
    with assms have "shape n \<and> wins n + ties n + count_list (a # path) x \<le> visits n"
      unfolding owing_def by blast
    with False show ?thesis by simp
  qed
qed

lemma owing_backpropagate_loop:
  "owing path t \<Longrightarrow> owing [] (backpropagate_loop R w path t)"
proof (induction path arbitrary: t)
  case Nil
  then show ?case by simp
next
  case (Cons a path)
  from Cons.prems have "owing path (upd a (credit R w) t)" by (rule owing_credit)
  from Cons.IH [OF this] show ?case by simp
qed

lemma owing_weaken:
  assumes "owing p t"
  shows "owing [] t"
  unfolding owing_def
proof (intro allI impI)
  fix a n
  assume "node_at t a = Some n"
  with assms have "shape n \<and> wins n + ties n + count_list p a \<le> visits n"
    unfolding owing_def by blast
  then show "shape n \<and> wins n + ties n + count_list [] a \<le> visits n" by simp
qed

lemma shape_new [simp]: "shape (new_MCTSNode R b p)"
  by (simp add: shape_def new_MCTSNode_def)

lemma owing_get_node:
  assumes "owing [] t" and "get_node R b p t = Inr (c, t')"
  shows "owing [] t'"
  unfolding owing_def
proof (intro allI impI)
  fix x n
  assume x: "node_at t' x = Some n"
  from get_node_effect [OF assms(2)] have
    "node_at t' x = node_at t x
      \<or> (\<exists>n. node_at t x = Some n \<and> node_at t' x = Some (n\<lparr>parents := parents n @ [p]\<rparr>))
      \<or> (node_at t x = None \<and> node_at t' x = Some (new_MCTSNode R b p))" by blast
  with x assms(1) show "shape n \<and> wins n + ties n + count_list [] x \<le> visits n"
    unfolding owing_def by (auto simp: shape_def new_MCTSNode_def)
qed


lemma growing_done: "growing a [] t \<Longrightarrow> owing [] t"
  unfolding growing_def owing_def shape_def
  by (auto split: if_splits)

lemma growing_step:
  assumes g: "growing a (m # ms) t" and a: "node_at t a = Some n"
    and gn: "get_node R b (Some a) (upd a (\<lambda>n. n\<lparr>expanded := True\<rparr>) t) = Inr (c, t2)"
  shows "growing a ms (upd a (\<lambda>n. n\<lparr>children := children n @ [c]\<rparr>) t2)
     \<and> node_at (upd a (\<lambda>n. n\<lparr>children := children n @ [c]\<rparr>) t2) a \<noteq> None"
proof -
  let ?t1 = "upd a (\<lambda>n. n\<lparr>expanded := True\<rparr>) t"
  let ?t3 = "upd a (\<lambda>n. n\<lparr>children := children n @ [c]\<rparr>) t2"
  have eff: "node_at t2 x = node_at ?t1 x
      \<or> (\<exists>n. node_at ?t1 x = Some n \<and> node_at t2 x = Some (n\<lparr>parents := parents n @ [Some a]\<rparr>))
      \<or> (node_at ?t1 x = None \<and> node_at t2 x = Some (new_MCTSNode R b (Some a)))" for x
    using get_node_effect [OF gn] by blast
  have a1: "node_at ?t1 a = Some (n\<lparr>expanded := True\<rparr>)"
    using a by (simp add: node_at_upd)
  from g a have "wins n + ties n \<le> visits n
    \<and> length (children n) + length (m # ms) = length (moves n)"
    unfolding growing_def by (metis (full_types))
  then have na: "wins n + ties n \<le> visits n"
    "length (children n) + length (m # ms) = length (moves n)" by simp_all
  from eff [of a] a1 obtain n2 where n2: "node_at t2 a = Some n2"
    "children n2 = children n" "moves n2 = moves n" "expanded n2"
    "wins n2 = wins n" "ties n2 = ties n" "visits n2 = visits n"
    by auto
  have "growing a ms ?t3"
    unfolding growing_def
  proof (intro allI impI)
    fix x k
    assume x: "node_at ?t3 x = Some k"
    show "wins k + ties k \<le> visits k
        \<and> (if x = a
           then length (children k) + length ms = length (moves k)
                \<and> (expanded k \<or> children k = [])
           else shape k)"
    proof (cases "x = a")
      case True
      with x n2 have "k = n2\<lparr>children := children n2 @ [c]\<rparr>" by (simp add: node_at_upd)
      with True n2 na show ?thesis by simp
    next
      case False
      with x have x2: "node_at t2 x = Some k" by (simp add: node_at_upd)
      from False have x1: "node_at ?t1 x = node_at t x" by (simp add: node_at_upd)
      from eff [of x] x2 x1 consider "node_at t x = Some k"
        | j where "node_at t x = Some j" "k = j\<lparr>parents := parents j @ [Some a]\<rparr>"
        | "k = new_MCTSNode R b (Some a)"
        by auto
      then show ?thesis
      proof cases
        case 1
        with g False show ?thesis unfolding growing_def by auto
      next
        case 2
        with g False have "wins j + ties j \<le> visits j \<and> shape j"
          unfolding growing_def by auto
        with 2 False show ?thesis by (simp add: shape_def)
      next
        case 3
        with False show ?thesis by (simp add: new_MCTSNode_def shape_def)
      qed
    qed
  qed
  moreover have "node_at ?t3 a \<noteq> None" using n2 by (simp add: node_at_upd)
  ultimately show ?thesis by simp
qed

lemma growing_expand_loop:
  "growing a ms t \<Longrightarrow> node_at t a \<noteq> None \<Longrightarrow> expand_loop R a b ms t = Inr t' \<Longrightarrow>
   owing [] t'"
proof (induction ms arbitrary: t)
  case Nil
  then show ?case by (simp add: growing_done)
next
  case (Cons m ms)
  from Cons.prems(2) obtain n where n: "node_at t a = Some n" by auto
  from Cons.prems(3) obtain c t2 where
    gn: "get_node R (move R b m) (Some a) (upd a (\<lambda>n. n\<lparr>expanded := True\<rparr>) t) = Inr (c, t2)"
    and rec: "expand_loop R a b ms (upd a (\<lambda>n. n\<lparr>children := children n @ [c]\<rparr>) t2) = Inr t'"
    by (auto simp: Let_def split: sum.splits)
  from growing_step [OF Cons.prems(1) n gn] Cons.IH rec show ?case by blast
qed

lemma owing_expand:
  assumes "owing [] t" and "expand R a t = Inr t'"
  shows "owing [] t'"
proof -
  from assms(2) obtain n where n: "node_at t a = Some n"
    by (auto simp: expand_def split: option.splits)
  show ?thesis
  proof (cases "expanded n")
    case True
    with assms(2) n have "t' = visit a t" by (simp add: expand_def Let_def)
    with owing_visit [OF assms(1), of a] show ?thesis by (auto intro: owing_weaken)
  next
    case False
    with assms(2) n have loop: "expand_loop R a (board n) (moves n) (visit a t) = Inr t'"
      by (simp add: expand_def Let_def)
    have "growing a (moves n) (visit a t)"
      unfolding growing_def visit_def
      using assms(1) n False unfolding owing_def
      by (auto simp: node_at_upd shape_def) (force+)?
    moreover have "node_at (visit a t) a \<noteq> None"
      using n by (simp add: visit_def node_at_upd)
    ultimately show ?thesis using loop by (rule growing_expand_loop)
  qed
qed

lemma owing_empty: "owing [] empty_tree"
  by (simp add: owing_def empty_tree_def node_at_def)

lemma mcts_reach_owing: "mcts_reach R t \<Longrightarrow> owing [] t"
proof (induction rule: mcts_reach.induct)
  case start
  show ?case by (rule owing_empty)
next
  case (root t b a t')
  then show ?case by (auto intro: owing_get_node)
next
  case (selected t k a path t')
  then have "owing path t'" unfolding select_def by (auto intro: owing_select_loop)
  then show ?case by (rule owing_weaken)
next
  case (played t k a path t1 final)
  then have "owing path t1" unfolding select_def by (auto intro: owing_select_loop)
  then show ?case unfolding backpropagate_def by (rule owing_backpropagate_loop)
next
  case (grown t a t')
  then show ?case by (auto intro: owing_expand)
qed

lemma mcts_loop_reach:
  "mcts_reach R t \<Longrightarrow> mcts_loop R k node finals t = Some (Inr t') \<Longrightarrow> mcts_reach R t'"
proof (induction finals arbitrary: t)
  case Nil
  then show ?case by simp
next
  case (Cons final finals)
  from Cons.prems(2) obtain path t1 where sel: "select k node t = Some (Inr (path, t1))"
    by (auto split: option.splits sum.splits)
  let ?t2 = "backpropagate R final path t1"
  from Cons.prems(1) sel have r2: "mcts_reach R ?t2" by (rule mcts_reach.played)
  from Cons.prems(2) sel obtain leaf_node where leaf: "node_at ?t2 (last path) = Some leaf_node"
    by (auto simp: Let_def split: option.splits)
  show ?case
  proof (cases "game_winner R (board leaf_node) = PLAYER_NONE R")
    case True
    with Cons.prems(2) sel leaf obtain t3 where t3: "expand R (last path) ?t2 = Inr t3"
      and rec: "mcts_loop R k node finals t3 = Some (Inr t')"
      by (auto simp: Let_def split: sum.splits)
    from r2 t3 have "mcts_reach R t3" by (rule mcts_reach.grown)
    from Cons.IH [OF this rec] show ?thesis .
  next
    case False
    with Cons.prems(2) sel leaf have "mcts_loop R k node finals ?t2 = Some (Inr t')"
      by (simp add: Let_def)
    from Cons.IH [OF r2 this] show ?thesis .
  qed
qed

lemma mcts_reach_mcts:
  "mcts_reach R t \<Longrightarrow> mcts R k b finals t = Some (Inr t') \<Longrightarrow> mcts_reach R t'"
  unfolding mcts_def
  by (auto split: sum.splits intro: mcts_loop_reach mcts_reach.root)

subsection \<open>What the destruction of nodes changes\<close>

lemma held_filicide [simp]: "held (filicide c t) = held t"
  by (simp add: filicide_def split: option.splits)













lemma table_upd [simp]: "transposition_table (upd a f t) = transposition_table t"
  by (simp add: upd_def split: option.splits)








subsection \<open>Rounding\<close>

lemma round_even_bounds: "\<lfloor>y\<rfloor> \<le> round_even y \<and> round_even y \<le> \<lfloor>y\<rfloor> + 1"
  by (simp add: round_even_def Let_def)

lemma round_even_of_int [simp]: "round_even (of_int k) = k"
  by (simp add: round_even_def)

lemma round_even_mono:
  assumes "a \<le> b"
  shows "round_even a \<le> round_even b"
proof (cases "\<lfloor>a\<rfloor> = \<lfloor>b\<rfloor>")
  case True
  with assms have "a - of_int \<lfloor>a\<rfloor> \<le> b - of_int \<lfloor>b\<rfloor>" by simp
  with True show ?thesis by (auto simp: round_even_def Let_def)
next
  case False
  with assms have "\<lfloor>a\<rfloor> + 1 \<le> \<lfloor>b\<rfloor>" using floor_mono [OF assms] by simp
  with round_even_bounds [of a] round_even_bounds [of b] show ?thesis by linarith
qed

lemma round_even_ge: "of_int k \<le> y \<Longrightarrow> k \<le> round_even y"
  using round_even_mono [of "of_int k" y] by simp

lemma round_even_le: "y \<le> of_int k \<Longrightarrow> round_even y \<le> k"
  using round_even_mono [of y "of_int k"] by simp

lemma pow2_powr: "pow2 e = 2 powr of_int e"
  by (simp add: pow2_def powr_real_of_int field_simps)

lemma pow2_add: "pow2 (a + b) = pow2 a * pow2 b"
  unfolding pow2_powr by (simp add: powr_add)

lemma pow2_nat: "pow2 (int n) = 2 ^ n"
  by (simp add: pow2_def)

lemma pow2_pos [simp]: "0 < pow2 e"
  by (simp add: pow2_def)

lemma pow2_nonzero [simp]: "pow2 e \<noteq> 0"
  by (simp add: pow2_def)

lemma pow2_mono: "a \<le> b \<Longrightarrow> pow2 a \<le> pow2 b"
  unfolding pow2_powr by (simp add: powr_mono)

lemma binade:
  assumes "0 < x"
  shows "pow2 \<lfloor>log 2 x\<rfloor> \<le> x" and "x < pow2 (\<lfloor>log 2 x\<rfloor> + 1)"
  using floor_log_eq_powr_iff [of x 2 "\<lfloor>log 2 x\<rfloor>"] assms unfolding pow2_powr by simp_all

lemma exponent_eq:
  "0 < x \<Longrightarrow> pow2 E \<le> x \<Longrightarrow> x < pow2 (E + 1) \<Longrightarrow> \<lfloor>log 2 x\<rfloor> = E"
  using floor_log_eq_powr_iff [of x 2 E] unfolding pow2_powr by simp

lemma pow2_neg: "pow2 (- int n) = 1 / 2 ^ n"
  by (simp add: pow2_def)

lemma bits_bounds:
  assumes "0 < n"
  shows "0 < floorlog 2 n" and "(2::real) ^ (floorlog 2 n - 1) \<le> real n"
    and "real n + 1 \<le> 2 ^ floorlog 2 n"
proof -
  from assms show "0 < floorlog 2 n" by (simp add: floorlog_def)
  from floorlog_bounds [of n 2] assms
  have b: "2 ^ (floorlog 2 n - 1) \<le> n" "n + 1 \<le> 2 ^ floorlog 2 n" by simp_all
  from b(1) have "real (2 ^ (floorlog 2 n - 1)) \<le> real n" by (simp only: of_nat_le_iff)
  then show "(2::real) ^ (floorlog 2 n - 1) \<le> real n" by simp
  from b(2) have "real (n + 1) \<le> real (2 ^ floorlog 2 n)" by (simp only: of_nat_le_iff)
  then show "real n + 1 \<le> 2 ^ floorlog 2 n" by simp
qed

lemma exponent_log:
  assumes "0 < x"
  shows "exponent x = \<lfloor>log 2 x\<rfloor>"
proof (cases "1 \<le> x")
  case True
  define n where "n = nat \<lfloor>x\<rfloor>"
  define L where "L = floorlog 2 n"
  from True have "1 \<le> \<lfloor>x\<rfloor>" by (simp add: le_floor_iff)
  then have n0: "0 < n" and rn: "real n = of_int \<lfloor>x\<rfloor>" unfolding n_def by simp_all
  have n: "real n \<le> x" "x < real n + 1" unfolding rn by linarith+
  note b = bits_bounds [OF n0, folded L_def]
  obtain k where k: "L = Suc k" using b(1) by (cases L) auto
  from b(2) have "(2::real) ^ k \<le> real n" unfolding k diff_Suc_1 .
  with n(1) have lo: "pow2 (int k) \<le> x" unfolding pow2_nat by linarith
  have hi: "x < pow2 (int k + 1)"
  proof -
    have "pow2 (int k + 1) = 2 ^ L" using pow2_nat [of "Suc k"] k by (simp add: add.commute)
    with b(3) n(2) show ?thesis by linarith
  qed
  from exponent_eq [OF assms lo hi] True show ?thesis
    by (simp add: exponent_def n_def [symmetric] L_def [symmetric] k)
next
  case False
  define y where "y = 1 / x"
  define m where "m = nat (\<lceil>y\<rceil> - 1)"
  define L where "L = floorlog 2 m"
  from False assms have y: "1 < y" unfolding y_def by simp
  then have "2 \<le> \<lceil>y\<rceil>" by (simp add: le_ceiling_iff)
  then have m0: "0 < m" and rm: "real m = of_int \<lceil>y\<rceil> - 1" unfolding m_def by simp_all
  have m: "real m < y" "y \<le> real m + 1" unfolding rm by linarith+
  note b = bits_bounds [OF m0, folded L_def]
  obtain k where k: "L = Suc k" using b(1) by (cases L) auto
  from b(2) have "(2::real) ^ k \<le> real m" unfolding k diff_Suc_1 .
  with m(1) have y1: "2 ^ k < y" by linarith
  have y2: "y \<le> 2 ^ L" using b(3) m(2) by linarith
  have x: "x = 1 / y" unfolding y_def by simp
  have lo: "pow2 (- int L) \<le> x"
    unfolding x pow2_neg using y y2 by (simp add: frac_le)
  have hi: "x < pow2 (- int L + 1)"
  proof -
    have "- int L + 1 = - int k" using k by simp
    then have "pow2 (- int L + 1) = 1 / 2 ^ k" by (simp only: pow2_neg)
    moreover have "1 / y < 1 / 2 ^ k" using y1 by (simp add: frac_less2)
    ultimately show ?thesis unfolding x by simp
  qed
  from exponent_eq [OF assms lo hi] False show ?thesis
    by (simp add: exponent_def y_def [symmetric] m_def [symmetric] L_def [symmetric])
qed

lemma fl_pos: "0 < x \<Longrightarrow> fl p x = of_int (round_even (x / scale p x)) * scale p x"
  by (simp add: fl_def Let_def scale_def exponent_log)

lemma scale_pos [simp]: "0 < scale p x"
  by (simp add: scale_def)

lemma scale_times: "0 < p \<Longrightarrow> 2 ^ (p - 1) * scale p x = pow2 \<lfloor>log 2 x\<rfloor>"
proof -
  assume p: "0 < p"
  then have "int (p - 1) + (\<lfloor>log 2 x\<rfloor> - int p + 1) = \<lfloor>log 2 x\<rfloor>" by simp
  with pow2_add [of "int (p - 1)" "\<lfloor>log 2 x\<rfloor> - int p + 1"]
  show ?thesis by (simp only: scale_def pow2_nat)
qed

lemma scale_times': "2 ^ p * scale p x = pow2 (\<lfloor>log 2 x\<rfloor> + 1)"
proof -
  have "int p + (\<lfloor>log 2 x\<rfloor> - int p + 1) = \<lfloor>log 2 x\<rfloor> + 1" by simp
  with pow2_add [of "int p" "\<lfloor>log 2 x\<rfloor> - int p + 1"]
  show ?thesis by (simp only: scale_def pow2_nat)
qed

lemma of_int_two_power: "real_of_int (2 ^ n) = 2 ^ n"
  by simp

lemma fl_bounds:
  assumes x: "0 < x" and p: "0 < p"
  shows "pow2 \<lfloor>log 2 x\<rfloor> \<le> fl p x" and "fl p x \<le> pow2 (\<lfloor>log 2 x\<rfloor> + 1)"
proof -
  let ?s = "scale p x"
  have "2 ^ (p - 1) * ?s \<le> x" using binade(1) [OF x] scale_times [OF p, of x] by simp
  then have "real_of_int (2 ^ (p - 1)) \<le> x / ?s" by (simp add: pos_le_divide_eq)
  then have "2 ^ (p - 1) \<le> round_even (x / ?s)" by (rule round_even_ge)
  then have "real_of_int (2 ^ (p - 1)) \<le> of_int (round_even (x / ?s))"
    by (simp only: of_int_le_iff)
  then have lower: "2 ^ (p - 1) * ?s \<le> of_int (round_even (x / ?s)) * ?s"
    by (simp add: mult_right_mono)
  show "pow2 \<lfloor>log 2 x\<rfloor> \<le> fl p x"
    unfolding fl_pos [OF x, of p] scale_times [OF p, of x, symmetric] by (rule lower)
  have "x \<le> 2 ^ p * ?s" using binade(2) [OF x] scale_times' [of p x] by simp
  then have "x / ?s \<le> real_of_int (2 ^ p)" by (simp add: pos_divide_le_eq)
  then have "round_even (x / ?s) \<le> 2 ^ p" by (rule round_even_le)
  then have "of_int (round_even (x / ?s)) \<le> real_of_int (2 ^ p)"
    by (simp only: of_int_le_iff)
  then have upper: "of_int (round_even (x / ?s)) * ?s \<le> 2 ^ p * ?s"
    by (simp add: mult_right_mono)
  show "fl p x \<le> pow2 (\<lfloor>log 2 x\<rfloor> + 1)"
    unfolding fl_pos [OF x, of p] scale_times' [of p x, symmetric] by (rule upper)
qed

lemma fl_zero [simp]: "fl p 0 = 0"
  by (simp add: fl_def)

lemma fl_pos_pos: "0 < x \<Longrightarrow> 0 < p \<Longrightarrow> 0 < fl p x"
  using fl_bounds(1) [of x p] pow2_pos [of "\<lfloor>log 2 x\<rfloor>"] by linarith

lemma fl_nonneg: "0 \<le> x \<Longrightarrow> 0 < p \<Longrightarrow> 0 \<le> fl p x"
  using fl_pos_pos [of x p] by (cases "x = 0") auto

lemma fl_mono_pos:
  assumes x: "0 < x" and xy: "x \<le> y" and p: "0 < p"
  shows "fl p x \<le> fl p y"
proof -
  from x xy have y: "0 < y" by simp
  have le: "\<lfloor>log 2 x\<rfloor> \<le> \<lfloor>log 2 y\<rfloor>"
    using x xy by (intro floor_mono) simp
  show ?thesis
  proof (cases "\<lfloor>log 2 x\<rfloor> = \<lfloor>log 2 y\<rfloor>")
    case True
    then have s: "scale p x = scale p y" by (simp add: scale_def)
    have "x / scale p y \<le> y / scale p y"
      by (rule divide_right_mono [OF xy]) (simp add: less_imp_le)
    then have "round_even (x / scale p y) \<le> round_even (y / scale p y)" by (rule round_even_mono)
    then have "real_of_int (round_even (x / scale p y)) \<le> of_int (round_even (y / scale p y))"
      by (simp only: of_int_le_iff)
    then have "of_int (round_even (x / scale p y)) * scale p y
        \<le> of_int (round_even (y / scale p y)) * scale p y"
      by (rule mult_right_mono) (simp add: less_imp_le)
    then show ?thesis unfolding fl_pos [OF x, of p] fl_pos [OF y, of p] s .
  next
    case False
    with le have "\<lfloor>log 2 x\<rfloor> + 1 \<le> \<lfloor>log 2 y\<rfloor>" by simp
    then have "pow2 (\<lfloor>log 2 x\<rfloor> + 1) \<le> pow2 \<lfloor>log 2 y\<rfloor>"
      by (rule pow2_mono)
    with fl_bounds(2) [OF x p] fl_bounds(1) [OF y p] show ?thesis by linarith
  qed
qed

lemma fl_mono: "0 \<le> x \<Longrightarrow> x \<le> y \<Longrightarrow> 0 < p \<Longrightarrow> fl p x \<le> fl p y"
  using fl_mono_pos [of x y p] fl_nonneg [of y p] by (cases "x = 0") auto


lemma pow2_less_imp: "pow2 a < pow2 b \<Longrightarrow> a < b"
  using pow2_mono [of b a] by (cases "a < b") auto

lemma fl_exact:
  assumes m: "0 < m" "m < 2 ^ p"
  shows "fl p (of_int m * pow2 j) = of_int m * pow2 j"
proof -
  define x where "x = real_of_int m * pow2 j"
  define e where "e = \<lfloor>log 2 x\<rfloor> - int p + 1"
  have x: "0 < x" using m by (simp add: x_def)
  have "real_of_int m < real_of_int (2 ^ p)" using m(2) by (simp only: of_int_less_iff)
  then have "x < 2 ^ p * pow2 j" by (simp add: x_def)
  also have "\<dots> = pow2 (int p + j)" by (simp only: pow2_add pow2_nat)
  finally have "pow2 \<lfloor>log 2 x\<rfloor> < pow2 (int p + j)" using binade(1) [OF x] by linarith
  then have "\<lfloor>log 2 x\<rfloor> < int p + j" by (rule pow2_less_imp)
  then have "j = e + int (nat (j - e))" by (simp add: e_def)
  then obtain d where d: "j = e + int d" ..
  have s: "scale p x = pow2 e" by (simp add: scale_def e_def)
  have j: "pow2 j = pow2 e * 2 ^ d"
    unfolding d by (simp only: pow2_add pow2_nat)
  have "x / pow2 e = real_of_int (m * 2 ^ d)"
    unfolding x_def j by simp
  then have "round_even (x / pow2 e) = m * 2 ^ d" by (simp only: round_even_of_int)
  then have "fl p x = real_of_int (m * 2 ^ d) * pow2 e"
    unfolding fl_pos [OF x, of p] s by simp
  also have "\<dots> = x" unfolding x_def j by simp
  finally show ?thesis unfolding x_def .
qed

lemma fl_pow2: "0 < p \<Longrightarrow> fl p (pow2 j) = pow2 j"
  using fl_exact [of 1 p j] by simp

lemma fl_eval:
  assumes "0 < x" and "pow2 E \<le> x" and "x < pow2 (E + 1)"
  shows "fl p x = of_int (round_even (x / pow2 (E - int p + 1))) * pow2 (E - int p + 1)"
  using exponent_eq [OF assms] fl_pos [OF assms(1), of p] by (simp add: scale_def)

lemma single_nat:
  assumes "n \<le> 2 ^ 24"
  shows "single (of_nat n) = of_nat n"
proof -
  consider "n = 0" | "n = 2 ^ 24" | "0 < n" "n < 2 ^ 24" using assms by arith
  then show ?thesis
  proof cases
    case 1
    then show ?thesis by (simp add: single_def)
  next
    case 2
    have "single (pow2 24) = pow2 24" unfolding single_def by (rule fl_pow2) simp
    with 2 show ?thesis by (simp add: pow2_def)
  next
    case 3
    then have "0 < int n" "int n < 2 ^ 24" by simp_all
    from fl_exact [OF this, of 0] show ?thesis by (simp add: single_def pow2_def)
  qed
qed

lemma single_half_nat:
  assumes "n < 2 ^ 24"
  shows "single (of_nat n / 2) = of_nat n / 2"
proof (cases "n = 0")
  case True
  then show ?thesis by (simp add: single_def)
next
  case False
  with assms have "0 < int n" "int n < 2 ^ 24" by simp_all
  from fl_exact [OF this, of "- 1"] show ?thesis by (simp add: single_def pow2_def)
qed

lemma TIE_REWARD_value: "TIE_REWARD = 1 / 2"
proof -
  have d: "double (5 / 10) = 1 / 2"
    using fl_pow2 [of 53 "- 1"] by (simp add: double_def pow2_def)
  have s: "single (1 / 2) = 1 / 2"
    using fl_pow2 [of 24 "- 1"] by (simp add: single_def pow2_def)
  show ?thesis unfolding TIE_REWARD_def d s ..
qed



lemma single_mono: "0 \<le> x \<Longrightarrow> x \<le> y \<Longrightarrow> single x \<le> single y"
  unfolding single_def by (rule fl_mono) simp_all

lemma single_nonneg: "0 \<le> x \<Longrightarrow> 0 \<le> single x"
  unfolding single_def by (rule fl_nonneg) simp_all

lemma single_one: "single 1 = 1"
  using fl_pow2 [of 24 0] by (simp add: single_def pow2_def)

lemma double_one: "double 1 = 1"
  using fl_pow2 [of 53 0] by (simp add: double_def pow2_def)

lemma double_mono: "0 \<le> x \<Longrightarrow> x \<le> y \<Longrightarrow> double x \<le> double y"
  unfolding double_def by (rule fl_mono) simp_all

lemma double_nonneg: "0 \<le> x \<Longrightarrow> 0 \<le> double x"
  unfolding double_def by (rule fl_nonneg) simp_all

lemma Q_denominator_ge: "1 \<le> Q_denominator n"
proof -
  have "0 \<le> single (of_nat (visits n))" by (rule single_nonneg) simp
  then have "single 1 \<le> single (1 + single (of_nat (visits n)))"
    by (intro single_mono) simp_all
  then show ?thesis by (simp add: Q_denominator_def single_one)
qed

lemma U_denominator_ge: "1 \<le> U_denominator n"
proof -
  have "0 \<le> double (of_nat (visits n))" by (rule double_nonneg) simp
  then have "double 1 \<le> double (1 + double (of_nat (visits n)))"
    by (intro double_mono) simp_all
  then show ?thesis by (simp add: U_denominator_def double_one)
qed

lemma hitrate_denominator_zero: "hitrate_denominator t = 0 \<longleftrightarrow> total_lookups t = 0"
proof (cases "total_lookups t = 0")
  case True
  then show ?thesis by (simp add: hitrate_denominator_def single_def)
next
  case False
  then have "0 < fl 24 (of_nat (total_lookups t))" by (intro fl_pos_pos) simp_all
  with False show ?thesis by (simp add: hitrate_denominator_def single_def)
qed

lemma single_below_one: "single ((2 ^ 24 - 1) / 2 ^ 24) = (2 ^ 24 - 1) / 2 ^ 24"
  using fl_exact [of "2 ^ 24 - 1" 24 "- 24"] by (simp add: single_def pow2_def)

lemma single_ulp: "single (1 / 2 ^ 24) = 1 / 2 ^ 24"
  using fl_pow2 [of 24 "- 24"] by (simp add: single_def pow2_def)

lemma single_zero: "single 0 = 0"
  by (simp add: single_def)

lemma single_2_24: "single 16777216 = 16777216"
  using single_nat [of 16777216] by simp

lemma single_2_24_plus_1: "single 16777217 = 16777216"
proof -
  have "single 16777217
      = of_int (round_even (16777217 / pow2 (24 - int 24 + 1))) * pow2 (24 - int 24 + 1)"
    unfolding single_def by (rule fl_eval) (simp_all add: pow2_def)
  also have "\<dots> = 16777216" by (simp add: pow2_def round_even_def Let_def)
  finally show ?thesis .
qed

subsection \<open>The loop of \<open>prune_children\<close>\<close>



















lemma visits_pruned_child [simp]: "visits (pruned_child t Qs cs i ci) = visits ci"
  by (simp add: pruned_child_def emptied_def)










section \<open>Facts about the example trees\<close>

lemmas eval_defs = example_game_def empty_tree_def new_MCTSNode_def expand_def node_at_def
  upd_def visit_def then_do_def node_of_def get_node.simps

lemma lone_root_built: "get_node example_game 3 None empty_tree = Inr (0, lone_root)"
  by (simp add: eval_defs lone_root_def)

lemma grown_built:
  "then_do (then_do (then_do (then_do (then_do (then_do
     (get_node example_game 0 None empty_tree)
     (\<lambda>(a, t). expand example_game a t)) (expand example_game 0)) (expand example_game 0))
     (expand example_game 1)) (expand example_game 2)) (expand example_game 2) = Inr grown"
  by (simp add: eval_defs grown_def)

lemma two_roots_built:
  "then_do (then_do (get_node example_game 1 None empty_tree)
     (\<lambda>(a, t). get_node example_game 0 None t)) (\<lambda>(a, t). expand example_game a t)
   = Inr two_roots"
  by (simp add: eval_defs two_roots_def)

lemmas prune_defs = prune_def inspect_def node_at_def max_visits_of_def filicide_def upd_def
  use_count_def slot_refs_def destroy_def erase_def node_of_def

lemma family_tree_built:
  "then_do (then_do (then_do (then_do (get_node example_game 0 None empty_tree)
     (\<lambda>(a, t). expand example_game a t)) (expand example_game 1)) (expand example_game 2))
     (expand example_game 4) = Inr family_tree"
  by (simp add: eval_defs family_tree_def)


lemma first_iteration_built:
  "mcts example_game 1 0 [3] empty_tree = Some (Inr first_iteration)"
  by (simp add: mcts_def select_def backpropagate_def credit_def eval_defs first_iteration_def)

lemma lopsided_built:
  "then_do (then_do (get_node example_game 0 None empty_tree)
     (\<lambda>(a, t). expand example_game a t)) (expand example_game 1) = Inr lopsided"
  by (simp add: eval_defs lopsided_def)











lemma contested_built:
  "then_do (then_do (then_do (then_do (then_do (then_do
     (get_node example_game 0 None empty_tree)
     (\<lambda>(a, t). expand example_game a t)) (expand example_game 1)) (expand example_game 1))
     (expand example_game 1)) (expand example_game 2))
     (\<lambda>t. Inr (backpropagate example_game 3 [2] t)) = Inr contested"
  by (simp add: eval_defs contested_def backpropagate_def credit_def)














section \<open>The claims\<close>

text \<open>
  C1. The claim: while the table is larger than \<open>max_size\<close>, \<open>prune\<close> pops a frontier
  node, finds its most-visited child and calls \<open>filicide\<close> on the other children whose
  visits do not exceed that child's; the most-visited child is kept. The code takes the
  popped node's own visit count as the threshold and exempts no child. In \<open>grown\<close> the
  root has 3 visits and the children 1 and 2 have 1 and 2 visits: \<open>prune 3\<close> calls
  \<open>filicide\<close> on child 2, the most visited one, and its child 5 is destroyed.
\<close>

theorem prune_discards_most_visited_child:
  "map_option children (node_at grown 0) = Some [1, 2]
   \<and> map_option visits (node_at grown 0) = Some 3
   \<and> map_option visits (node_at grown 1) = Some 1
   \<and> map_option visits (node_at grown 2) = Some 2
   \<and> map_option children (node_at grown 2) = Some [5]
   \<and> node_at grown 5 \<noteq> None
   \<and> map_option expanded (node_of (prune 3 grown) 2) = Some False
   \<and> map_option children (node_of (prune 3 grown) 2) = Some []
   \<and> node_of (prune 3 grown) 5 = None"
  by (simp add: prune_defs grown_def)

text \<open>
  C2. The claim: \<open>prune\<close> ends after finitely many dequeues on every input, also when
  nothing more can be pruned and the table is still larger than \<open>max_size\<close>. On the tree
  with one childless root and \<open>max_size = 0\<close> the only dequeue removes nothing from the
  table, the loop condition still holds, and the next iteration reads the front of the
  empty queue: the behaviour of the call is undefined from there on.
\<close>

theorem prune_lone_root_reads_empty_queue:
  "length (transposition_table lone_root) = 1 \<and> roots lone_root = [0]
   \<and> map_option children (node_at lone_root 0) = Some []
   \<and> prune 0 lone_root = Inl Front_of_empty_queue"
  by (simp add: prune_defs lone_root_def)

text \<open>
  C4. The claim: a node has an empty parent set exactly when it is a root, and every
  node without parents is in the root set once. In \<open>two_roots\<close> (board 1 looked up
  without a parent, then board 0, then the node of board 0 expanded) the node of board 1
  is in the root set and is a child of the live node of board 0: the constructor had put
  an empty \<^verbatim>\<open>weak_ptr\<close> into its parent vector, so \<open>get_node\<close> did not find the vector
  empty and did not take the node out of the root set. After \<open>U\<close> has dropped the empty
  entry the node is still a root with one live parent. Already a fresh root has a parent
  vector of size one.
\<close>

theorem root_with_live_parent:
  "0 \<in> set (roots two_roots)
   \<and> map_option parents (node_at two_roots 0) = Some [None, Some 1]
   \<and> map_option children (node_at two_roots 1) = Some [0, 2]
   \<and> map_option parents (node_at (snd (U 0 two_roots)) 0) = Some [Some 1]
   \<and> 0 \<in> set (roots (snd (U 0 two_roots)))
   \<and> 0 \<in> set (roots lone_root)
   \<and> map_option parents (node_at lone_root 0) = Some [None]"
  by (simp add: two_roots_def lone_root_def node_at_def U_def upd_def)

text \<open>
  C3. The claim: \<open>expand\<close> on a node with an empty move list leaves \<open>expanded\<close> true
  and no children, and further calls change nothing but the visit count. The flag is
  assigned inside the loop over the moves, so with no move it keeps its value: the
  terminal root of \<open>lone_root\<close> is not expanded after the call.
\<close>

theorem expand_terminal_counterexample:
  "map_option moves (node_at lone_root 0) = Some []
   \<and> map_option expanded (node_of (expand example_game 0 lone_root) 0) = Some False"
  by (simp add: eval_defs lone_root_def)

text \<open>
  C3, as the code has it: on a node with an empty move list \<open>expand\<close> adds one to the
  visit count and changes nothing else, neither the flag nor the child vector nor any
  other node, and a second call does the same again.
\<close>

theorem expand_terminal:
  assumes "node_at t a = Some n" and "moves n = []"
  shows "expand R a t = Inr (visit a t)
     \<and> node_at (visit a t) a = Some (n\<lparr>visits := visits n + 1\<rparr>)
     \<and> expand R a (visit a t) = Inr (visit a (visit a t))
     \<and> node_at (visit a (visit a t)) a = Some (n\<lparr>visits := visits n + 2\<rparr>)"
  using assms by (simp add: expand_def visit_def node_at_upd Let_def)

theorem expand_terminal_witness:
  "expand example_game 0 lone_root = Inr (visit 0 lone_root)
   \<and> map_option expanded (node_at (visit 0 lone_root) 0) = Some False
   \<and> map_option children (node_at (visit 0 lone_root) 0) = Some []
   \<and> expand example_game 0 (visit 0 lone_root) = Inr (visit 0 (visit 0 lone_root))
   \<and> map_option visits (node_at (visit 0 (visit 0 lone_root)) 0) = Some 2"
proof -
  have h: "node_at lone_root 0 = Some \<lparr>board = 3, moves = [], parents = [None],
      children = [], visits = 0, wins = 0, ties = 0, expanded = False\<rparr>"
    by (simp add: lone_root_def node_at_def)
  from expand_terminal [OF h, of example_game] show ?thesis by simp
qed


text \<open>
  C8. Two calls of \<open>get_node\<close> with the same board and no parent return the same node:
  the first call returns an address that holds a node and that the table now has under
  the board, and the second call returns the same address. The second call adds one to
  the lookup and hit counters and changes nothing else, so the root vector and the node,
  its parent vector included, are as they were. When the table was sound before the
  first call, the node has the board that was asked for and the table is still sound.
  This holds from every tree, whether the first call finds the board, creates the node
  or replaces a stale entry.
\<close>

theorem get_node_twice:
  "\<exists>a n t1 t2. get_node R b None t = Inr (a, t1)
     \<and> node_at t1 a = Some n \<and> map_of (transposition_table t1) b = Some a
     \<and> (table_sound t \<longrightarrow> board n = b \<and> table_sound t1)
     \<and> get_node R b None t1 = Inr (a, t2)
     \<and> t2 = t1\<lparr>total_lookups := total_lookups t1 + 1, total_hits := total_hits t1 + 1\<rparr>
     \<and> total_hits t2 = total_hits t1 + 1 \<and> roots t2 = roots t1 \<and> node_at t2 a = Some n"
proof -
  have "\<exists>a n t1 t2. get_node R b None t = Inr (a, t1)
     \<and> node_at t1 a = Some n \<and> map_of (transposition_table t1) b = Some a
     \<and> (table_sound t \<longrightarrow> board n = b \<and> table_sound t1)
     \<and> get_node R b None t1 = Inr (a, t2)
     \<and> t2 = t1\<lparr>total_lookups := total_lookups t1 + 1, total_hits := total_hits t1 + 1\<rparr>"
  proof (cases "map_of (transposition_table t) b")
    case None
    from get_node_fresh [OF this, of R] show ?thesis by blast
  next
    case (Some a)
    show ?thesis
    proof (cases "node_at t a")
      case None
      let ?t' = "t\<lparr>total_lookups := total_lookups t + 1,
          transposition_table := erase b (transposition_table t)\<rparr>"
      have same: "get_node R b None t = get_node R b None ?t'"
        using Some None by (rule get_node_stale)
      have miss: "map_of (transposition_table ?t') b = None"
        by (simp add: map_of_erase)
      have "table_sound t \<longrightarrow> table_sound ?t'"
        by (auto intro: table_sound_erase)
      with get_node_fresh [OF miss, of R] same show ?thesis
        by (metis (no_types, lifting))
    next
      case n: (Some n)
      let ?t1 = "t\<lparr>total_lookups := total_lookups t + 1, total_hits := total_hits t + 1\<rparr>"
      have first: "get_node R b None t = Inr (a, ?t1)"
        using Some n by (rule get_node_hit)
      have tab: "map_of (transposition_table ?t1) b = Some a" and node: "node_at ?t1 a = Some n"
        using Some n by simp_all
      then have second: "get_node R b None ?t1 =
          Inr (a, ?t1\<lparr>total_lookups := total_lookups ?t1 + 1, total_hits := total_hits ?t1 + 1\<rparr>)"
        by (rule get_node_hit)
      have sound: "table_sound t \<longrightarrow> board n = b \<and> table_sound ?t1"
        using Some n by (auto simp: table_sound_counters) (simp add: table_sound_def)
      from first node tab sound second show ?thesis by blast
    qed
  qed
  then obtain a n t1 t2 where *: "get_node R b None t = Inr (a, t1)"
     "node_at t1 a = Some n" "map_of (transposition_table t1) b = Some a"
     "table_sound t \<longrightarrow> board n = b \<and> table_sound t1"
     "get_node R b None t1 = Inr (a, t2)"
     "t2 = t1\<lparr>total_lookups := total_lookups t1 + 1, total_hits := total_hits t1 + 1\<rparr>"
    by blast
  from *(2,6) have "total_hits t2 = total_hits t1 + 1" "roots t2 = roots t1" "node_at t2 a = Some n"
    by simp_all
  with * show ?thesis by blast
qed

theorem get_node_twice_witness:
  "table_sound (empty_tree :: (nat, nat) MCTSTree)
   \<and> (\<exists>n t2. get_node example_game 3 None empty_tree = Inr (0, lone_root)
     \<and> node_at lone_root 0 = Some n \<and> board n = 3 \<and> table_sound lone_root
     \<and> get_node example_game 3 None lone_root = Inr (0, t2)
     \<and> total_hits t2 = 1 \<and> roots t2 = [0] \<and> node_at t2 0 = Some n)"
proof -
  from get_node_twice [of example_game 3 empty_tree] lone_root_built table_sound_empty
  obtain n t2 where "node_at lone_root 0 = Some n" "board n = 3" "table_sound lone_root"
    "get_node example_game 3 None lone_root = Inr (0, t2)"
    "total_hits t2 = total_hits lone_root + 1" "roots t2 = roots lone_root"
    "node_at t2 0 = Some n"
    by auto
  with lone_root_built table_sound_empty show ?thesis
    by (auto simp: lone_root_def)
qed




text \<open>
  C5. In every state of the iteration loop of \<open>mcts\<close> (selection, playout,
  backpropagation, expansion) every node has \<open>0 \<le> wins + ties \<le> visits\<close>, and its child
  vector is empty or as long as its move list.
\<close>

theorem mcts_invariant:
  assumes "mcts_reach R t" and "node_at t a = Some n"
  shows "0 \<le> wins n + ties n \<and> wins n + ties n \<le> visits n
     \<and> (length (children n) = 0 \<or> length (children n) = length (moves n))"
proof -
  from assms(1) have "owing [] t" by (rule mcts_reach_owing)
  with assms(2) have "shape n \<and> wins n + ties n + count_list [] a \<le> visits n"
    unfolding owing_def by blast
  then show ?thesis by (auto simp: shape_def split: if_splits)
qed


theorem mcts_invariant_witness:
  "mcts_reach example_game first_iteration
   \<and> map_option wins (node_at first_iteration 0) = Some 1
   \<and> map_option ties (node_at first_iteration 0) = Some 0
   \<and> map_option visits (node_at first_iteration 0) = Some 2
   \<and> map_option children (node_at first_iteration 0) = Some [1, 2]
   \<and> map_option moves (node_at first_iteration 0) = Some [1, 2]"
proof -
  have r: "mcts_reach example_game first_iteration"
    using mcts_reach.start first_iteration_built by (rule mcts_reach_mcts)
  have n: "node_at first_iteration 0 = Some \<lparr>board = 0, moves = [1, 2], parents = [None],
      children = [1, 2], visits = 2, wins = 1, ties = 0, expanded = True\<rparr>"
    by (simp add: first_iteration_def node_at_def)
  from mcts_invariant [OF r n] r n show ?thesis by simp
qed

text \<open>
  C9. The claim: the denominators of \<open>Q\<close>, \<open>U\<close> and the hit rate are never zero, in
  particular the hit rate does not divide by zero before the first lookup. The hit rate
  divides by the lookup counter as it is: in the empty tree the denominator is zero and
  the quotient is not a number.
\<close>

theorem hitrate_counterexample:
  "total_lookups (empty_tree :: (nat, nat) MCTSTree) = 0
   \<and> hitrate_denominator (empty_tree :: (nat, nat) MCTSTree) = 0
   \<and> transposition_hitrate (empty_tree :: (nat, nat) MCTSTree) = None"
  by (simp add: transposition_hitrate_def hitrate_denominator_def empty_tree_def single_def)

text \<open>
  C9, as the code has it: the denominators of \<open>Q\<close> and \<open>U\<close> are at least one for all
  counter values; the denominator of the hit rate is zero exactly as long as no lookup
  has been made, and then the hit rate is not a number.
\<close>

theorem denominators:
  "1 \<le> Q_denominator n \<and> 1 \<le> U_denominator n
   \<and> (hitrate_denominator t = 0 \<longleftrightarrow> total_lookups t = 0)
   \<and> (transposition_hitrate t = None \<longleftrightarrow> total_lookups t = 0)"
  by (simp add: Q_denominator_ge U_denominator_ge hitrate_denominator_zero
      transposition_hitrate_def)

theorem denominators_witness:
  "1 \<le> Q_denominator saturated \<and> 1 \<le> U_denominator saturated
   \<and> hitrate_denominator lone_root \<noteq> 0 \<and> transposition_hitrate lone_root \<noteq> None"
  using denominators [of saturated lone_root] by (simp add: lone_root_def)


text \<open>
  C10. The claim: for a node with \<open>wins + ties \<le> visits\<close> the value of \<open>Q\<close> is at least
  0 and strictly below 1, so that \<open>1 - Q\<close> is strictly positive in \<open>max_PUCT\<close>. In
  \<^verbatim>\<open>float\<close> arithmetic \<open>1.0f + visits\<close> is rounded: at \<open>2 ^ 24\<close> visits the sum is
  \<open>2 ^ 24\<close> again, and a node won at each visit has \<open>Q = 1\<close> and \<open>1 - Q = 0\<close>.
\<close>

theorem Q_saturated:
  "wins saturated + ties saturated \<le> visits saturated
   \<and> Q saturated = 1 \<and> single (1 - Q saturated) = 0"
proof -
  have "Q_denominator saturated = 16777216"
    by (simp add: Q_denominator_def saturated_def single_2_24 single_2_24_plus_1)
  then have "Q saturated = 1"
    by (simp add: Q_def saturated_def single_2_24 single_one single_zero)
  then show ?thesis by (simp add: saturated_def single_zero)
qed

text \<open>
  C10, as the code has it: for a node with \<open>wins + ties \<le> visits\<close> and fewer than
  \<open>2 ^ 24\<close> visits, \<open>Q\<close> is at least 0 and at most \<open>1 - 2 ^ -24\<close>, hence strictly below 1,
  and the rounded difference \<open>1 - Q\<close> is at least \<open>2 ^ -24\<close>, hence strictly positive.
\<close>

theorem Q_range:
  assumes inv: "wins n + ties n \<le> visits n" and small: "visits n < 2 ^ 24"
  shows "0 \<le> Q n \<and> Q n \<le> 1 - 1 / 2 ^ 24 \<and> Q n < 1
     \<and> 1 / 2 ^ 24 \<le> single (1 - Q n) \<and> 0 < single (1 - Q n)"
proof -
  let ?w = "real (wins n)" and ?t = "real (ties n)" and ?v = "real (visits n)"
  from inv small have w: "wins n \<le> 2 ^ 24" and t: "ties n < 2 ^ 24" and v: "visits n \<le> 2 ^ 24"
    and v1: "visits n + 1 \<le> 2 ^ 24" by simp_all
  have sw: "single ?w = ?w" using w by (rule single_nat)
  have sv: "single ?v = ?v" using v by (rule single_nat)
  have st: "single (TIE_REWARD * single ?t) = ?t / 2"
    using single_nat [of "ties n"] single_half_nat [OF t] t by (simp add: TIE_REWARD_value)
  define total where "total = single (single ?w + single (TIE_REWARD * single ?t))"
  have total: "total = single (?w + ?t / 2)" by (simp add: total_def sw st)
  have "real (wins n + ties n) \<le> real (visits n)" using inv by (simp only: of_nat_le_iff)
  then have "?w + ?t / 2 \<le> ?v" by simp
  then have "total \<le> single ?v" unfolding total by (intro single_mono) simp_all
  then have tv: "total \<le> ?v" by (simp add: sv)
  have t0: "0 \<le> total" unfolding total by (rule single_nonneg) simp
  have den: "Q_denominator n = ?v + 1"
    using single_nat [OF v1] by (simp add: Q_denominator_def sv add.commute)
  have Q: "Q n = single (total / (?v + 1))"
    by (simp add: Q_def total_def den Let_def)
  have q0: "0 \<le> total / (?v + 1)" using t0 by simp
  have "total / (?v + 1) \<le> ?v / (?v + 1)" using tv by (simp add: divide_right_mono)
  also have "\<dots> = 1 - 1 / (?v + 1)" by (simp add: field_simps)
  also have "\<dots> \<le> 1 - 1 / 2 ^ 24"
  proof -
    have "real (visits n + 1) \<le> real (2 ^ 24)" using v1 by (simp only: of_nat_le_iff)
    then have "?v + 1 \<le> 2 ^ 24" by simp
    then have "1 / 2 ^ 24 \<le> 1 / (?v + 1)" by (simp add: frac_le)
    then show ?thesis by simp
  qed
  finally have "total / (?v + 1) \<le> (2 ^ 24 - 1) / 2 ^ 24" by (simp add: field_simps)
  with q0 have "single (total / (?v + 1)) \<le> single ((2 ^ 24 - 1) / 2 ^ 24)"
    by (rule single_mono)
  then have hi: "Q n \<le> (2 ^ 24 - 1) / 2 ^ 24" by (simp only: Q single_below_one)
  have lo: "0 \<le> Q n" unfolding Q using q0 by (rule single_nonneg)
  from hi have "1 / 2 ^ 24 \<le> 1 - Q n" by (simp add: field_simps)
  then have "single (1 / 2 ^ 24) \<le> single (1 - Q n)" by (intro single_mono) simp_all
  then have ulp: "1 / 2 ^ 24 \<le> single (1 - Q n)" unfolding single_ulp .
  then have pos: "0 < single (1 - Q n)" by (simp add: less_le_trans [of 0 "1 / 2 ^ 24"])
  from hi have hi': "Q n \<le> 1 - 1 / 2 ^ 24" by (simp add: field_simps)
  from hi have "Q n < 1" by (simp add: field_simps)
  with lo hi' ulp pos show ?thesis by (intro conjI)
qed

theorem Q_range_witness:
  "0 \<le> Q \<lparr>board = 6::nat, moves = [] :: nat list, parents = [Some 4], children = [],
        visits = 16777215, wins = 16777215, ties = 0, expanded = False\<rparr>
   \<and> Q \<lparr>board = 6::nat, moves = [] :: nat list, parents = [Some 4], children = [],
        visits = 16777215, wins = 16777215, ties = 0, expanded = False\<rparr> \<le> 1 - 1 / 2 ^ 24
   \<and> 1 / 2 ^ 24 \<le> single (1 - Q \<lparr>board = 6::nat, moves = [] :: nat list,
        parents = [Some 4], children = [], visits = 16777215, wins = 16777215, ties = 0,
        expanded = False\<rparr>)"
  using Q_range [of "\<lparr>board = 6::nat, moves = [] :: nat list, parents = [Some 4],
        children = [], visits = 16777215, wins = 16777215, ties = 0, expanded = False\<rparr>"]
  by simp




end
